theory Spec2Isabelle
  imports Main "HOL-Library.Sublist"
begin

section \<open>Python strings\<close>

text \<open>
  A Python \<open>str\<close> is modelled as a \<open>string\<close>, one \<open>char\<close> per character, a \<open>char\<close>
  being a code point below 256. On these characters \<open>isspace\<close> and \<open>lower\<close> are those of
  Python: the whitespace that \<open>str.strip()\<close> removes is the code points 9 to 13, 28 to 32,
  133 and 160, and \<open>str.lower()\<close> adds 32 to the letters A to Z and to the letters 192 to
  222 of Latin-1 other than the multiplication sign 215.
\<close>

definition isspace :: "char \<Rightarrow> bool" where
  "isspace c = ((of_char c :: nat) \<in> set [9, 10, 11, 12, 13, 28, 29, 30, 31, 32, 133, 160])"

definition isupper :: "char \<Rightarrow> bool" where
  "isupper c =
     ((65 \<le> (of_char c :: nat) \<and> (of_char c :: nat) \<le> 90) \<or>
      (192 \<le> (of_char c :: nat) \<and> (of_char c :: nat) \<le> 222 \<and> (of_char c :: nat) \<noteq> 215))"

definition lower_char :: "char \<Rightarrow> char" where
  "lower_char c = (if isupper c then char_of (of_char c + (32::nat)) else c)"

text \<open>\<open>s.lower()\<close>\<close>
definition lower :: "string \<Rightarrow> string" where
  "lower s = map lower_char s"

text \<open>\<open>s.strip()\<close>, with its two halves\<close>
definition lstrip :: "string \<Rightarrow> string" where
  "lstrip s = dropWhile isspace s"

definition rstrip :: "string \<Rightarrow> string" where
  "rstrip s = rev (dropWhile isspace (rev s))"

definition strip :: "string \<Rightarrow> string" where
  "strip s = lstrip (rstrip s)"

text \<open>\<open>s.lstrip(c)\<close> and \<open>s.rstrip(c)\<close> for a one-character argument\<close>
definition lstrip_chr :: "char \<Rightarrow> string \<Rightarrow> string" where
  "lstrip_chr c s = dropWhile (\<lambda>x. x = c) s"

definition rstrip_chr :: "char \<Rightarrow> string \<Rightarrow> string" where
  "rstrip_chr c s = rev (dropWhile (\<lambda>x. x = c) (rev s))"

text \<open>\<open>s.replace(a, b)\<close> for one-character \<open>a\<close> and \<open>b\<close>\<close>
definition replace_chr :: "char \<Rightarrow> char \<Rightarrow> string \<Rightarrow> string" where
  "replace_chr a b s = map (\<lambda>x. if x = a then b else x) s"

text \<open>\<open>s.startswith(c)\<close> and \<open>s.endswith(c)\<close> for a one-character argument\<close>
definition startswith_chr :: "string \<Rightarrow> char \<Rightarrow> bool" where
  "startswith_chr s c = (case s of [] \<Rightarrow> False | x # _ \<Rightarrow> x = c)"

definition endswith_chr :: "string \<Rightarrow> char \<Rightarrow> bool" where
  "endswith_chr s c = (s \<noteq> [] \<and> last s = c)"

text \<open>\<open>s.split(c)\<close>: never the empty list, \<open>''''.split(c) = ['''']\<close>\<close>
fun split_on :: "char \<Rightarrow> string \<Rightarrow> string list" where
  "split_on c [] = [[]]"
| "split_on c (x # xs) =
     (if x = c then [] # split_on c xs
      else (case split_on c xs of p # ps \<Rightarrow> (x # p) # ps | [] \<Rightarrow> [[x]]))"

text \<open>\<open>sep.join(parts)\<close>\<close>
fun join :: "string \<Rightarrow> string list \<Rightarrow> string" where
  "join sep [] = []"
| "join sep [p] = p"
| "join sep (p # q # ps) = p @ sep @ join sep (q # ps)"

text \<open>\<open>s[1:-1]\<close>: the empty string when \<open>s\<close> has fewer than two characters\<close>
definition slice_1_m1 :: "string \<Rightarrow> string" where
  "slice_1_m1 s = butlast (tl s)"

text \<open>\<open>sub in s\<close>\<close>
fun contains :: "string \<Rightarrow> string \<Rightarrow> bool" where
  "contains sub [] = (sub = [])"
| "contains sub (x # xs) = (prefix sub (x # xs) \<or> contains sub xs)"

text \<open>\<open>str(n)\<close> for a status code\<close>
fun str_nat :: "nat \<Rightarrow> string" where
  "str_nat n = (if n < 10 then [char_of (48 + n)]
                else str_nat (n div 10) @ [char_of (48 + n mod 10)])"

declare str_nat.simps [simp del]


section \<open>JSON values and entries\<close>

text \<open>
  What \<open>json.loads\<close> and \<open>response.json()\<close> return. A \<open>JObj\<close> lists the items of a
  Python dict, whose keys are distinct. Numbers are integers.
\<close>

datatype json =
    JNull
  | JBool bool
  | JNum int
  | JStr string
  | JList "json list"
  | JObj "(string \<times> json) list"

text \<open>Python's truth value of an object, as used by \<open>x or {}\<close> and \<open>if not x\<close>\<close>
fun truthy :: "json \<Rightarrow> bool" where
  "truthy JNull = False"
| "truthy (JBool b) = b"
| "truthy (JNum n) = (n \<noteq> 0)"
| "truthy (JStr s) = (s \<noteq> [])"
| "truthy (JList xs) = (xs \<noteq> [])"
| "truthy (JObj kvs) = (kvs \<noteq> [])"

text \<open>An Entry Draft: one element of \<open>data\<close>, the dict \<open>{key, value, secure}\<close>\<close>
record draft =
  draft_key :: string
  draft_value :: json
  draft_secure :: json

text \<open>A row of the changeset table, with the cells as they are before \<open>str()\<close>\<close>
record changeset_row =
  row_key :: string
  old_value :: json
  new_value :: json
  row_secure :: json

datatype table =
    Changeset "changeset_row list"
  | Listing "json list list"


section \<open>Exceptions, the remote store and the terminal\<close>

datatype exn =
    Exit nat
  | Abort
  | NoToken
  | RequestFailed nat string
  | JSONDecodeError
  | AttributeError
  | NotRenderableError

datatype request =
    GetPrefix string
  | GetKey string
  | DeleteKey string
  | PostEntries "draft list"

record response =
  status_code :: nat
  text_of :: string
  json_body :: "json option"

datatype client_call =
    ValidateToken
  | GetEntryByKey string
  | DeleteEntryByKey string
  | CreateEntry string string bool
  | CreateEntries "draft list"

datatype message =
    TokenExpired
  | ErrorMsg exn
  | FileMissing string
  | NoNboxPath
  | NoValidInput
  | UnsupportedJSON
  | MissingFields
  | NoEntryFound
  | AboutToUpdate
  | AboutToCreate
  | AboutToRemove
  | Cancelled
  | EntryCreated string
  | EntriesCreated nat
  | EntryRemoved string

datatype event =
    Call client_call
  | Http request response
  | Say message
  | Print table
  | AskSecure "string list"
  | AskConfirm

text \<open>
  The collaborators of one command run: the saved token, the remote store (a step function
  on a state \<open>'s\<close> of its own), the file system, \<open>json.loads\<close> (\<open>None\<close> when it raises),
  the checkbox prompt (\<open>None\<close> when it gives no answers), the yes/no prompt (\<open>None\<close> when
  it is aborted), and whether \<open>Table.add_row\<close> takes a cell that was not passed
  through \<open>str()\<close>.
\<close>

record 's env =
  nbox_token :: "string option"
  server :: "request \<Rightarrow> 's \<Rightarrow> response \<times> 's"
  read_file :: "string \<Rightarrow> string option"
  json_loads :: "string \<Rightarrow> json option"
  checkbox :: "string list \<Rightarrow> string list option"
  confirm :: "bool option"
  add_row_accepts :: "json \<Rightarrow> bool"

text \<open>
  A computation returns a value or raises, emits events in the order they happen, and
  moves the remote store on.
\<close>

type_synonym ('s, 'a) io = "'s \<Rightarrow> (exn + 'a) \<times> event list \<times> 's"

definition io_return :: "'a \<Rightarrow> ('s, 'a) io" where
  "io_return x s = (Inr x, [], s)"

definition io_raise :: "exn \<Rightarrow> ('s, 'a) io" where
  "io_raise e s = (Inl e, [], s)"

definition emit :: "event \<Rightarrow> ('s, unit) io" where
  "emit ev s = (Inr (), [ev], s)"

definition io_bind :: "('s, 'a) io \<Rightarrow> ('a \<Rightarrow> ('s, 'b) io) \<Rightarrow> ('s, 'b) io" where
  "io_bind m f s =
     (case m s of
        (Inl e, t, s') \<Rightarrow> (Inl e, t, s')
      | (Inr x, t, s') \<Rightarrow> (case f x s' of (r, t', s'') \<Rightarrow> (r, t @ t', s'')))"

text \<open>\<open>try: m except Exception as e: h e\<close>; every \<open>exn\<close> is an \<open>Exception\<close>\<close>
definition io_try :: "('s, 'a) io \<Rightarrow> (exn \<Rightarrow> ('s, 'a) io) \<Rightarrow> ('s, 'a) io" where
  "io_try m h s =
     (case m s of
        (Inl e, t, s') \<Rightarrow> (case h e s' of (r, t', s'') \<Rightarrow> (r, t @ t', s''))
      | (Inr x, t, s') \<Rightarrow> (Inr x, t, s'))"

definition result_of :: "(exn + 'a) \<times> event list \<times> 's \<Rightarrow> exn + 'a" where
  "result_of r = fst r"

definition events_of :: "(exn + 'a) \<times> event list \<times> 's \<Rightarrow> event list" where
  "events_of r = fst (snd r)"

text \<open>The exit code of the process: an uncaught exception ends it with 1.\<close>
fun exit_code :: "exn + 'a \<Rightarrow> nat" where
  "exit_code (Inr _) = 0"
| "exit_code (Inl (Exit c)) = c"
| "exit_code (Inl _) = 1"


section \<open>client.py\<close>

definition http :: "'s env \<Rightarrow> request \<Rightarrow> ('s, response) io" where
  "http env rq s = (case server env rq s of (rs, s') \<Rightarrow> (Inr rs, [Http rq rs], s'))"

text \<open>The tail every client method ends with: the JSON body on status 200, else raise.\<close>
definition json_or_raise :: "response \<Rightarrow> ('s, json) io" where
  "json_or_raise rs =
     (if status_code rs = 200
      then (case json_body rs of Some j \<Rightarrow> io_return j | None \<Rightarrow> io_raise JSONDecodeError)
      else io_raise (RequestFailed (status_code rs) (text_of rs)))"

text \<open>\<open>NboxRequestClient.__init__\<close>\<close>
definition new_client :: "'s env \<Rightarrow> ('s, unit) io" where
  "new_client env =
     (case nbox_token env of
        None \<Rightarrow> io_raise NoToken
      | Some t \<Rightarrow> if t = [] then io_raise NoToken else io_return ())"

definition client_validate_token :: "'s env \<Rightarrow> ('s, json) io" where
  "client_validate_token env =
     io_bind (emit (Call ValidateToken)) (\<lambda>_.
     io_bind (http env (GetPrefix ''login'')) json_or_raise)"

definition client_get_entry_by_key :: "'s env \<Rightarrow> string \<Rightarrow> ('s, json) io" where
  "client_get_entry_by_key env key =
     io_bind (emit (Call (GetEntryByKey key))) (\<lambda>_.
     io_bind (http env (GetKey (lstrip_chr CHR ''/'' key))) json_or_raise)"

definition client_delete_entry_by_key :: "'s env \<Rightarrow> string \<Rightarrow> ('s, json) io" where
  "client_delete_entry_by_key env key =
     io_bind (emit (Call (DeleteEntryByKey key))) (\<lambda>_.
     io_bind (http env (DeleteKey (lstrip_chr CHR ''/'' key))) json_or_raise)"

definition client_create_entry :: "'s env \<Rightarrow> string \<Rightarrow> string \<Rightarrow> bool \<Rightarrow> ('s, json) io" where
  "client_create_entry env key val secure =
     io_bind (emit (Call (CreateEntry key val secure))) (\<lambda>_.
     io_bind (http env (PostEntries
        [\<lparr>draft_key = lstrip_chr CHR ''/'' key, draft_value = JStr val,
          draft_secure = JBool secure\<rparr>])) json_or_raise)"

definition client_create_entries :: "'s env \<Rightarrow> draft list \<Rightarrow> ('s, json) io" where
  "client_create_entries env entries_json =
     io_bind (emit (Call (CreateEntries entries_json))) (\<lambda>_.
     io_bind (http env (PostEntries entries_json)) json_or_raise)"


section \<open>cli.py\<close>

text \<open>
  The test of \<open>_get_client\<close> on the message of the exception it caught: \<open>"401" in msg
  and "expired" in msg.lower()\<close>. The fixed text of \<open>NoToken\<close> has no 401 and no other
  exception message says expired.
\<close>
definition token_expired :: "exn \<Rightarrow> bool" where
  "token_expired e =
     (case e of
        RequestFailed code body \<Rightarrow>
          (let error_msg = ''Request failed with status '' @ str_nat code @ '': '' @ body
           in contains ''401'' error_msg \<and> contains ''expired'' (lower error_msg))
      | _ \<Rightarrow> False)"

definition get_client :: "'s env \<Rightarrow> ('s, unit) io" where
  "get_client env =
     io_try
       (io_bind (new_client env) (\<lambda>_.
        io_bind (client_validate_token env) (\<lambda>_. io_return ())))
       (\<lambda>e. io_bind (emit (Say (if token_expired e then TokenExpired else ErrorMsg e))) (\<lambda>_.
            io_raise (Exit 1)))"

text \<open>\<open>d.get(k, default)\<close>; an object that is not a dict has no \<open>get\<close>\<close>
definition dict_get :: "json \<Rightarrow> string \<Rightarrow> json \<Rightarrow> ('s, json) io" where
  "dict_get d k dflt =
     (case d of
        JObj kvs \<Rightarrow> io_return (case map_of kvs k of Some v \<Rightarrow> v | None \<Rightarrow> dflt)
      | _ \<Rightarrow> io_raise AttributeError)"

definition ask_confirm :: "'s env \<Rightarrow> ('s, bool) io" where
  "ask_confirm env s =
     (case confirm env of
        None \<Rightarrow> (Inl Abort, [AskConfirm], s)
      | Some b \<Rightarrow> (Inr b, [AskConfirm], s))"

definition prompt_secure :: "'s env \<Rightarrow> string list \<Rightarrow> ('s, string list option) io" where
  "prompt_secure env choices s = (Inr (checkbox env choices), [AskSecure choices], s)"

subsection \<open>\<open>_parse_env_file\<close>\<close>

text \<open>The quote stripping of lines 256 to 259\<close>
definition unquote :: "string \<Rightarrow> string" where
  "unquote v =
     (if startswith_chr v CHR 0x22 \<and> endswith_chr v CHR 0x22 then slice_1_m1 v
      else if startswith_chr v CHR 0x27 \<and> endswith_chr v CHR 0x27 then slice_1_m1 v
      else v)"

text \<open>The dotenv key transform of line 253\<close>
definition env_key_of :: "string \<Rightarrow> string" where
  "env_key_of k = replace_chr CHR ''_'' CHR ''-'' (lower (strip k))"

text \<open>The body of the loop over the lines: \<open>None\<close> where it says \<open>continue\<close>\<close>
definition parse_env_line :: "string \<Rightarrow> (string \<times> string) option" where
  "parse_env_line raw =
     (let line = strip raw in
      if line = [] \<or> startswith_chr line CHR ''#'' then None
      else if CHR ''='' \<notin> set line then None
      else
        let k = takeWhile (\<lambda>c. c \<noteq> CHR ''='') line;
            v = tl (dropWhile (\<lambda>c. c \<noteq> CHR ''='') line)
        in Some (env_key_of k, unquote (strip v)))"

fun env_entries :: "string list \<Rightarrow> (string \<times> string) list \<Rightarrow> (string \<times> string) list" where
  "env_entries [] entries = entries"
| "env_entries (line # lines) entries =
     (case parse_env_line line of
        None \<Rightarrow> env_entries lines entries
      | Some e \<Rightarrow> env_entries lines (entries @ [e]))"

definition env_draft :: "string \<Rightarrow> string set \<Rightarrow> string \<times> string \<Rightarrow> draft" where
  "env_draft nbox_path secure_keys entry =
     \<lparr>draft_key = rstrip_chr CHR ''/'' nbox_path @ ''/'' @ fst entry,
      draft_value = JStr (snd entry),
      draft_secure = JBool (fst entry \<in> secure_keys)\<rparr>"

definition parse_env_file :: "'s env \<Rightarrow> string \<Rightarrow> string \<Rightarrow> ('s, draft list) io" where
  "parse_env_file env content nbox_path =
     (let lines = split_on CHR 0x0A (strip content);
          entries = env_entries lines []
      in if entries = [] then io_return []
         else
           io_bind (prompt_secure env (map fst entries)) (\<lambda>answers.
           let secure_keys = (case answers of Some ks \<Rightarrow> set ks | None \<Rightarrow> {})
           in io_return (map (env_draft nbox_path secure_keys) entries)))"

subsection \<open>\<open>_parse_nbox_json\<close>\<close>

text \<open>The structured-list key transform of lines 310 and 315, on a string key\<close>
definition nbox_key_of :: "string \<Rightarrow> string" where
  "nbox_key_of k = lower (lstrip_chr CHR ''/'' k)"

definition unsupported_json :: "('s, 'a) io" where
  "unsupported_json = io_bind (emit (Say UnsupportedJSON)) (\<lambda>_. io_raise (Exit 1))"

fun nbox_entries :: "json list \<Rightarrow> draft list \<Rightarrow> ('s, draft list) io" where
  "nbox_entries [] data = io_return data"
| "nbox_entries (entry # rest) data =
     (case entry of
        JObj kvs \<Rightarrow>
          (case (map_of kvs ''key'', map_of kvs ''value'') of
             (Some k, Some v) \<Rightarrow>
               (case k of
                  JStr ks \<Rightarrow>
                    nbox_entries rest (data @
                      [\<lparr>draft_key = nbox_key_of ks, draft_value = v,
                        draft_secure = (case map_of kvs ''secure'' of
                                          Some b \<Rightarrow> b | None \<Rightarrow> JBool False)\<rparr>])
                | _ \<Rightarrow> io_raise AttributeError)
           | _ \<Rightarrow> io_bind (emit (Say MissingFields)) (\<lambda>_. io_raise (Exit 1)))
      | _ \<Rightarrow> unsupported_json)"

definition parse_nbox_json :: "'s env \<Rightarrow> string \<Rightarrow> ('s, draft list) io" where
  "parse_nbox_json env content =
     (case json_loads env content of
        None \<Rightarrow> io_raise JSONDecodeError
      | Some (JList entries_json) \<Rightarrow> nbox_entries entries_json []
      | Some _ \<Rightarrow> unsupported_json)"

subsection \<open>\<open>create_entries\<close>\<close>

text \<open>Lines 370 to 375: the key the changeset looks up\<close>
definition existing_key_name :: "string \<Rightarrow> string" where
  "existing_key_name k =
     (let key = lower k;
          path_parts = split_on CHR ''/'' key;
          key_name = replace_chr CHR ''-'' CHR ''_'' (last path_parts)
      in join ''/'' (butlast path_parts @ [key_name]))"

text \<open>Lines 369 to 384: the loop of the changeset mode, \<open>rows\<close> the rows added so far\<close>
fun build_changeset ::
  "'s env \<Rightarrow> draft list \<Rightarrow> changeset_row list \<Rightarrow> ('s, changeset_row list) io" where
  "build_changeset env [] rows = io_return rows"
| "build_changeset env (entry # rest) rows =
     io_bind (client_get_entry_by_key env (existing_key_name (draft_key entry))) (\<lambda>found.
     io_bind (dict_get (if truthy found then found else JObj []) ''value'' (JStr [])) (\<lambda>old.
     if add_row_accepts env old
     then build_changeset env rest (rows @
            [\<lparr>row_key = lower (draft_key entry), old_value = old,
              new_value = draft_value entry, row_secure = draft_secure entry\<rparr>])
     else io_raise NotRenderableError))"

text \<open>Lines 386 to 392: the rows of the no-changeset mode\<close>
definition plain_rows :: "draft list \<Rightarrow> json list list" where
  "plain_rows data =
     map (\<lambda>entry. [JStr (lower (draft_key entry)), draft_value entry, draft_secure entry]) data"

text \<open>Lines 366 to 392: the table of either mode\<close>
definition changeset_table :: "'s env \<Rightarrow> bool \<Rightarrow> draft list \<Rightarrow> ('s, table) io" where
  "changeset_table env no_changeset data =
     (if \<not> no_changeset
      then io_bind (build_changeset env data []) (\<lambda>rows. io_return (Changeset rows))
      else io_return (Listing (plain_rows data)))"

text \<open>
  Lines 396 to 399, and the same four lines of \<open>create_entry\<close> and \<open>remove_entry\<close>: the
  confirmation gate
\<close>
definition confirm_or_exit :: "'s env \<Rightarrow> ('s, unit) io" where
  "confirm_or_exit env =
     io_bind (ask_confirm env) (\<lambda>yes.
     if \<not> yes then io_bind (emit (Say Cancelled)) (\<lambda>_. io_raise (Exit 0))
     else io_return ())"

text \<open>Lines 401 to 406: the apply step\<close>
definition apply_entries :: "'s env \<Rightarrow> draft list \<Rightarrow> ('s, unit) io" where
  "apply_entries env data =
     io_try
       (io_bind (emit (Say (EntriesCreated (length data)))) (\<lambda>_.
        io_bind (client_create_entries env data) (\<lambda>_. io_return ())))
       (\<lambda>e. io_bind (emit (Say (ErrorMsg e))) (\<lambda>_. io_raise (Exit 1)))"

text \<open>Lines 366 to 406: what \<open>create_entries\<close> does with the parsed \<open>data\<close>\<close>
definition import_data :: "'s env \<Rightarrow> bool \<Rightarrow> draft list \<Rightarrow> ('s, unit) io" where
  "import_data env no_changeset data =
     io_bind (changeset_table env no_changeset data) (\<lambda>tbl.
     io_bind (emit (Print tbl)) (\<lambda>_.
     io_bind (confirm_or_exit env) (\<lambda>_.
     apply_entries env data)))"

text \<open>Lines 353 to 364: the choice of the parser\<close>
definition parse_source ::
  "'s env \<Rightarrow> string \<Rightarrow> string option \<Rightarrow> string \<Rightarrow> ('s, draft list) io" where
  "parse_source env content nbox_path input_type =
     (if input_type = ''nbox'' then parse_nbox_json env content
      else if input_type = ''dotenv'' then
        (case nbox_path of
           None \<Rightarrow> io_bind (emit (Say NoNboxPath)) (\<lambda>_. io_raise (Exit 1))
         | Some p \<Rightarrow>
             if p = [] then io_bind (emit (Say NoNboxPath)) (\<lambda>_. io_raise (Exit 1))
             else parse_env_file env content p)
      else io_bind (emit (Say NoValidInput)) (\<lambda>_. io_raise (Exit 1)))"

definition create_entries ::
  "'s env \<Rightarrow> string \<Rightarrow> string option \<Rightarrow> string \<Rightarrow> bool \<Rightarrow> ('s, unit) io" where
  "create_entries env source_file nbox_path input_type no_changeset =
     io_bind (get_client env) (\<lambda>_.
     (case read_file env source_file of
        None \<Rightarrow> io_bind (emit (Say (FileMissing source_file))) (\<lambda>_. io_raise (Exit 1))
      | Some content \<Rightarrow>
          io_bind (parse_source env content nbox_path input_type) (\<lambda>data.
          import_data env no_changeset data)))"

subsection \<open>\<open>create_entry\<close> and \<open>remove_entry\<close>\<close>

definition create_entry :: "'s env \<Rightarrow> string \<Rightarrow> string \<Rightarrow> bool \<Rightarrow> ('s, unit) io" where
  "create_entry env key val secure =
     io_bind (get_client env) (\<lambda>_.
     io_bind (io_try (client_get_entry_by_key env key) (\<lambda>_. io_return JNull)) (\<lambda>entry.
     io_bind (if truthy entry
              then
                io_bind (emit (Say AboutToUpdate)) (\<lambda>_.
                io_bind (dict_get entry ''key'' (JStr [])) (\<lambda>k.
                io_bind (dict_get entry ''value'' (JStr [])) (\<lambda>v.
                if add_row_accepts env k
                then io_return (Listing [[k, v, JStr val, JBool secure]])
                else io_raise NotRenderableError)))
              else
                io_bind (emit (Say AboutToCreate)) (\<lambda>_.
                io_return (Listing [[JStr key, JStr val, JBool secure]]))) (\<lambda>tbl.
     io_bind (emit (Print tbl)) (\<lambda>_.
     io_bind (confirm_or_exit env) (\<lambda>_.
     io_bind
       (io_try
          (io_bind (new_client env) (\<lambda>_.
           io_bind (client_create_entry env key val secure) (\<lambda>_. io_return ())))
          (\<lambda>e. io_bind (emit (Say (ErrorMsg e))) (\<lambda>_. io_raise (Exit 1)))) (\<lambda>_.
     emit (Say (EntryCreated key))))))))"

text \<open>The delete call with its handler, as both branches of \<open>remove_entry\<close> have it\<close>
definition delete_and_report :: "'s env \<Rightarrow> string \<Rightarrow> ('s, unit) io" where
  "delete_and_report env key =
     io_bind
       (io_try
          (io_bind (client_delete_entry_by_key env key) (\<lambda>_. io_return ()))
          (\<lambda>e. io_bind (emit (Say (ErrorMsg e))) (\<lambda>_. io_raise (Exit 1)))) (\<lambda>_.
     emit (Say (EntryRemoved key)))"

definition remove_entry :: "'s env \<Rightarrow> string \<Rightarrow> bool \<Rightarrow> ('s, unit) io" where
  "remove_entry env key delete_confirmation =
     io_bind (io_try (new_client env)
                (\<lambda>e. io_bind (emit (Say (ErrorMsg e))) (\<lambda>_. io_raise (Exit 1)))) (\<lambda>_.
     io_bind (io_try (client_get_entry_by_key env key)
                (\<lambda>e. io_bind (emit (Say (ErrorMsg e))) (\<lambda>_. io_raise (Exit 1)))) (\<lambda>entry.
     if \<not> truthy entry then io_bind (emit (Say NoEntryFound)) (\<lambda>_. io_raise (Exit 1))
     else if delete_confirmation then
       io_bind (emit (Say AboutToRemove)) (\<lambda>_.
       io_bind (dict_get entry ''key'' (JStr [])) (\<lambda>k.
       io_bind (dict_get entry ''value'' (JStr [])) (\<lambda>v.
       io_bind (dict_get entry ''secure'' (JStr [])) (\<lambda>sec.
       io_bind (if add_row_accepts env k then io_return (Listing [[k, v, sec]])
                else io_raise NotRenderableError) (\<lambda>tbl.
       io_bind (emit (Print tbl)) (\<lambda>_.
       io_bind (confirm_or_exit env) (\<lambda>_.
       delete_and_report env key)))))))
     else delete_and_report env key))"


section \<open>What a run did\<close>

text \<open>The keys of the get-entry-by-key calls of a run, in the order they were made\<close>
fun lookups :: "event list \<Rightarrow> string list" where
  "lookups [] = []"
| "lookups (Call (GetEntryByKey k) # es) = k # lookups es"
| "lookups (_ # es) = lookups es"

text \<open>The bodies of the batch-create calls of a run\<close>
fun batch_creates :: "event list \<Rightarrow> draft list list" where
  "batch_creates [] = []"
| "batch_creates (Call (CreateEntries d) # es) = d # batch_creates es"
| "batch_creates (_ # es) = batch_creates es"

text \<open>A call or a request that writes to the store\<close>
fun is_write :: "event \<Rightarrow> bool" where
  "is_write (Call (CreateEntry _ _ _)) = True"
| "is_write (Call (CreateEntries _)) = True"
| "is_write (Call (DeleteEntryByKey _)) = True"
| "is_write (Http (PostEntries _) _) = True"
| "is_write (Http (DeleteKey _) _) = True"
| "is_write _ = False"

text \<open>The bodies of the POST requests of a run\<close>
fun posts :: "event list \<Rightarrow> draft list list" where
  "posts [] = []"
| "posts (Http (PostEntries d) _ # es) = d # posts es"
| "posts (_ # es) = posts es"

text \<open>
  What the store answered to the lookups of a run: for every GET by key that came back
  with status 200 and a JSON body, the key asked for and that body.
\<close>
fun found :: "event list \<Rightarrow> (string \<times> json) list" where
  "found [] = []"
| "found (Http (GetKey k) rs # es) =
     (if status_code rs = 200
      then (case json_body rs of Some j \<Rightarrow> (k, j) # found es | None \<Rightarrow> found es)
      else found es)"
| "found (_ # es) = found es"

text \<open>The two events of one lookup\<close>
definition lookup_events :: "string \<Rightarrow> response \<Rightarrow> event list" where
  "lookup_events k rs = [Call (GetEntryByKey k), Http (GetKey (lstrip_chr CHR ''/'' k)) rs]"


text \<open>
  What one answer of the store puts into the old-value cell of the changeset, or the
  exception that ends the loop there.
\<close>
definition old_value_cell :: "'s env \<Rightarrow> response \<Rightarrow> exn + json" where
  "old_value_cell env rs =
     (if status_code rs \<noteq> 200 then Inl (RequestFailed (status_code rs) (text_of rs))
      else
        (case json_body rs of
           None \<Rightarrow> Inl JSONDecodeError
         | Some j \<Rightarrow>
             (case (if truthy j then j else JObj []) of
                JObj kvs \<Rightarrow>
                  (let old = (case map_of kvs ''value'' of Some v \<Rightarrow> v | None \<Rightarrow> JStr [])
                   in if add_row_accepts env old then Inr old else Inl NotRenderableError)
              | _ \<Rightarrow> Inl AttributeError)))"

definition changeset_row_of :: "draft \<Rightarrow> json \<Rightarrow> changeset_row" where
  "changeset_row_of d old =
     \<lparr>row_key = lower (draft_key d), old_value = old,
      new_value = draft_value d, row_secure = draft_secure d\<rparr>"

section \<open>Concrete runs\<close>

definition ok :: "json \<Rightarrow> response" where
  "ok j = \<lparr>status_code = 200, text_of = [], json_body = Some j\<rparr>"

definition failed :: "nat \<Rightarrow> response" where
  "failed code = \<lparr>status_code = code, text_of = [], json_body = None\<rparr>"

text \<open>
  A run against a store that answers every request by \<open>answers\<close>, with a saved token, the
  file \<open>content\<close> under every name, \<open>json.loads\<close> giving \<open>parsed\<close>, no answer at the
  checkbox prompt, and \<open>yes\<close> at the confirmation.
\<close>
definition example_env ::
  "(request \<Rightarrow> response) \<Rightarrow> string \<Rightarrow> json option \<Rightarrow> bool option \<Rightarrow> unit env" where
  "example_env answers content parsed yes =
     \<lparr>nbox_token = Some ''token'',
      server = (\<lambda>rq s. (answers rq, s)),
      read_file = (\<lambda>_. Some content),
      json_loads = (\<lambda>_. parsed),
      checkbox = (\<lambda>_. None),
      confirm = yes,
      add_row_accepts = (\<lambda>_. True)\<rparr>"

definition entry :: "string \<Rightarrow> json \<Rightarrow> draft" where
  "entry k v = \<lparr>draft_key = k, draft_value = v, draft_secure = JBool False\<rparr>"

section \<open>Properties of all the runs of a computation\<close>

text \<open>Every event of every run satisfies \<open>P\<close>.\<close>
definition emits_only :: "(event \<Rightarrow> bool) \<Rightarrow> ('s, 'a) io \<Rightarrow> bool" where
  "emits_only P m = (\<forall>s. \<forall>e \<in> set (events_of (m s)). P e)"

text \<open>An event that neither writes to the store nor asks for the confirmation\<close>
definition harmless :: "event \<Rightarrow> bool" where
  "harmless e = (\<not> is_write e \<and> e \<noteq> AskConfirm)"

text \<open>A run that asked for the confirmation wrote nothing and ended with \<open>Exit 0\<close>.\<close>
definition cancels :: "('s, 'a) io \<Rightarrow> bool" where
  "cancels m =
     (\<forall>s. AskConfirm \<in> set (events_of (m s)) \<longrightarrow>
          (\<forall>e \<in> set (events_of (m s)). \<not> is_write e) \<and> result_of (m s) = Inl (Exit 0))"


section \<open>The dotenv parser in the words of the specification\<close>

text \<open>
  These definitions are written from the specification, to be compared with
  \<open>parse_env_file\<close>. One layer of matching surrounding quotes is a quote character at
  both ends of a value that has two ends.
\<close>
definition spec_unquote :: "string \<Rightarrow> string" where
  "spec_unquote v =
     (case v of
        [] \<Rightarrow> v
      | q # rest \<Rightarrow>
          if (q = CHR 0x22 \<or> q = CHR 0x27) \<and> rest \<noteq> [] \<and> last rest = q
          then butlast rest else v)"

text \<open>
  One line, taken as it is: skipped when blank, when it starts with \<open>#\<close>, or when it has
  no \<open>=\<close>; else split on the first \<open>=\<close>, key and value trimmed, the key lowercased with
  \<open>_\<close> replaced by \<open>-\<close>, the value without its quotes.
\<close>
definition spec_parse_env_line :: "string \<Rightarrow> (string \<times> string) option" where
  "spec_parse_env_line line =
     (if strip line = [] \<or> startswith_chr line CHR ''#'' then None
      else if CHR ''='' \<notin> set line then None
      else
        Some (replace_chr CHR ''_'' CHR ''-''
                (lower (strip (takeWhile (\<lambda>c. c \<noteq> CHR ''='') line))),
              spec_unquote (strip (tl (dropWhile (\<lambda>c. c \<noteq> CHR ''='') line)))))"

text \<open>The draft key and the value of every line that is not skipped\<close>
definition spec_env_drafts :: "string list \<Rightarrow> string \<Rightarrow> (string \<times> json) list" where
  "spec_env_drafts lines base_path =
     map (\<lambda>(k, v). (rstrip_chr CHR ''/'' base_path @ ''/'' @ k, JStr v))
       (List.map_filter spec_parse_env_line lines)"

text \<open>The text of a line after its first \<open>=\<close>, trimmed: the value before the quotes go\<close>
definition env_value_text :: "string \<Rightarrow> string" where
  "env_value_text line = strip (tl (dropWhile (\<lambda>c. c \<noteq> CHR ''='') (strip line)))"

text \<open>The draft key and the value of the drafts a parser returned\<close>
definition keys_values :: "exn + draft list \<Rightarrow> (string \<times> json) list" where
  "keys_values r =
     (case r of Inl _ \<Rightarrow> [] | Inr drafts \<Rightarrow> map (\<lambda>d. (draft_key d, draft_value d)) drafts)"


text \<open>The lines that the specification does not skip once they are trimmed, in their order\<close>
definition spec_kept :: "string \<Rightarrow> string list" where
  "spec_kept content =
     filter (\<lambda>line. spec_parse_env_line (strip line) \<noteq> None) (split_on CHR 0x0A content)"

text \<open>
  A draft against the line it comes from: its key is the key of the specification for the
  trimmed line, and so is its value unless the value of the line is one quote character.
\<close>
definition dotenv_agrees :: "string \<Rightarrow> draft \<Rightarrow> string \<Rightarrow> bool" where
  "dotenv_agrees base_path d line =
     (case spec_parse_env_line (strip line) of
        None \<Rightarrow> False
      | Some (k, v) \<Rightarrow>
          draft_key d = rstrip_chr CHR ''/'' base_path @ ''/'' @ k \<and>
          (env_value_text line \<noteq> [CHR 0x22] \<and> env_value_text line \<noteq> [CHR 0x27] \<longrightarrow>
             draft_value d = JStr v))"


section \<open>The answers to the lookups\<close>

text \<open>The responses of the store to the GET requests by key of a run, in their order\<close>
fun answers :: "event list \<Rightarrow> response list" where
  "answers [] = []"
| "answers (Http (GetKey k) rs # es) = rs # answers es"
| "answers (_ # es) = answers es"

text \<open>
  A lookup that the changeset loop gets past: status 200, a JSON body that is falsy or an
  object, and an old value (the value of the object, the empty string without one) that
  the table takes as a cell.
\<close>
definition lookup_ok :: "'s env \<Rightarrow> response \<Rightarrow> bool" where
  "lookup_ok env rs =
     (status_code rs = 200 \<and>
      (case json_body rs of
         None \<Rightarrow> False
       | Some j \<Rightarrow>
           if truthy j
           then (case j of
                   JObj kvs \<Rightarrow>
                     add_row_accepts env
                       (case map_of kvs ''value'' of Some v \<Rightarrow> v | None \<Rightarrow> JStr [])
                 | _ \<Rightarrow> False)
           else add_row_accepts env (JStr [])))"


text \<open>A row of the changeset against its draft and the answer of the store to its lookup\<close>
definition row_matches :: "changeset_row \<Rightarrow> draft \<Rightarrow> string \<times> json \<Rightarrow> bool" where
  "row_matches row d kj =
     (row_key row = lower (draft_key d) \<and>
      new_value row = draft_value d \<and>
      fst kj = lstrip_chr CHR ''/'' (existing_key_name (draft_key d)) \<and>
      (\<not> truthy (snd kj) \<longrightarrow> old_value row = JStr []) \<and>
      (truthy (snd kj) \<longrightarrow>
         (\<exists>kvs. snd kj = JObj kvs \<and>
            old_value row = (case map_of kvs ''value'' of Some v \<Rightarrow> v | None \<Rightarrow> JStr []))))"

text \<open>A string that \<open>strip\<close> leaves as it is\<close>
definition stripped :: "string \<Rightarrow> bool" where
  "stripped s = (s = [] \<or> (\<not> isspace (hd s) \<and> \<not> isspace (last s)))"


section \<open>Properties of the string functions\<close>

lemma of_char_lower_char:
  "isupper c \<Longrightarrow> of_char (lower_char c) = (of_char c + 32 :: nat)"
  by (auto simp add: lower_char_def isupper_def)

lemma not_isupper_lower_char: "\<not> isupper (lower_char c)"
proof (cases "isupper c")
  case True
  from of_char_lower_char[OF True] True show ?thesis
    by (simp add: isupper_def) arith
next
  case False
  then show ?thesis by (simp add: lower_char_def)
qed

lemma lower_char_idem: "lower_char (lower_char c) = lower_char c"
  using not_isupper_lower_char[of c] by (simp add: lower_char_def)

lemma lower_idem: "lower (lower s) = lower s"
  by (simp add: lower_def lower_char_idem)

lemma isspace_code:
  "isspace c \<longleftrightarrow> (of_char c :: nat) \<in> {9, 10, 11, 12, 13, 28, 29, 30, 31, 32, 133, 160}"
  by (simp add: isspace_def)

lemma isupper_not_space: "isupper c \<Longrightarrow> \<not> isspace c"
  by (auto simp: isspace_code isupper_def)

lemma isspace_lower_char: "isspace (lower_char c) = isspace c"
proof (cases "isupper c")
  case True
  have "\<not> isspace (lower_char c)"
    using of_char_lower_char[OF True] True by (auto simp: isspace_code isupper_def)
  with isupper_not_space[OF True] show ?thesis by simp
next
  case False
  then show ?thesis by (simp add: lower_char_def)
qed

lemma lower_char_slash: "lower_char c = CHR ''/'' \<longleftrightarrow> c = CHR ''/''"
proof (cases "isupper c")
  case True
  with of_char_lower_char[OF True] show ?thesis by (auto simp: isupper_def)
next
  case False
  then show ?thesis by (auto simp add: lower_char_def isupper_def)
qed

text \<open>The case mapping and the whitespace outside ASCII\<close>
lemma lower_latin1_example:
  "lower [CHR 0xC9, CHR ''A'', CHR 0xD7, CHR 0xDE, CHR 0xDF, CHR ''z''] =
     [CHR 0xE9, CHR ''a'', CHR 0xD7, CHR 0xFE, CHR 0xDF, CHR ''z'']"
  by code_simp

lemma strip_latin1_example: "strip ([CHR 0xA0] @ ''a b'' @ [CHR 0x85, CHR 0x09]) = ''a b''"
  by code_simp

lemma strip_map:
  assumes "\<And>c. isspace (f c) = isspace c"
  shows "strip (map f s) = map f (strip s)"
  using assms by (simp add: strip_def lstrip_def rstrip_def dropWhile_map rev_map comp_def)

lemma last_dropWhile_ne: "dropWhile P xs \<noteq> [] \<Longrightarrow> last (dropWhile P xs) = last xs"
  by (induction xs) (auto split: if_splits)

lemma rstrip_last: "rstrip s \<noteq> [] \<Longrightarrow> \<not> isspace (last (rstrip s))"
  unfolding rstrip_def by (metis hd_dropWhile last_rev rev_is_Nil_conv)

lemma stripped_strip: "stripped (strip s)"
  unfolding stripped_def strip_def lstrip_def
  by (metis hd_dropWhile last_dropWhile_ne rstrip_last dropWhile.simps(1))

lemma lstrip_id: "s = [] \<or> \<not> isspace (hd s) \<Longrightarrow> lstrip s = s"
  by (cases s) (auto simp: lstrip_def)

lemma rstrip_id: "s = [] \<or> \<not> isspace (last s) \<Longrightarrow> rstrip s = s"
  by (cases s rule: rev_cases) (auto simp: rstrip_def)

lemma strip_stripped: "stripped s \<Longrightarrow> strip s = s"
  by (auto simp: stripped_def strip_def lstrip_id rstrip_id)

lemma strip_idem: "strip (strip s) = strip s"
  by (simp add: strip_stripped stripped_strip)

lemma lstrip_chr_lower: "lstrip_chr CHR ''/'' (lower s) = lower (lstrip_chr CHR ''/'' s)"
  by (simp add: lstrip_chr_def lower_def dropWhile_map comp_def lower_char_slash)

lemma lstrip_chr_idem: "lstrip_chr c (lstrip_chr c s) = lstrip_chr c s"
  unfolding lstrip_chr_def by (induction s) auto


section \<open>Key normalization\<close>

lemma env_key_of_alt:
  "env_key_of k =
     map (\<lambda>c. if lower_char c = CHR ''_'' then CHR ''-'' else lower_char c) (strip k)"
  by (simp add: env_key_of_def replace_chr_def lower_def comp_def)

lemma env_key_of_idem: "env_key_of (env_key_of k) = env_key_of k"
proof -
  let ?f = "\<lambda>c. if lower_char c = CHR ''_'' then CHR ''-'' else lower_char c"
  have sp: "isspace (?f c) = isspace c" for c
  proof (cases "lower_char c = CHR ''_''")
    case True
    have "\<not> isspace (CHR ''-'')" "\<not> isspace (CHR ''_'')"
      by (simp_all add: isspace_def)
    with True isspace_lower_char[of c] show ?thesis by simp
  next
    case False
    with isspace_lower_char[of c] show ?thesis by simp
  qed
  have dash: "lower_char (CHR ''-'') = CHR ''-''"
    by (simp add: lower_char_def isupper_def)
  have ff: "?f (?f c) = ?f c" for c
    by (cases "lower_char c = CHR ''_''") (simp_all add: dash lower_char_idem)
  have "env_key_of (env_key_of k) = map ?f (strip (map ?f (strip k)))"
    by (simp only: env_key_of_alt)
  also have "\<dots> = map ?f (map ?f (strip (strip k)))"
    by (simp only: strip_map[of ?f, OF sp])
  also have "\<dots> = map ?f (strip k)"
    by (simp only: strip_idem map_map comp_def ff)
  finally show ?thesis by (simp only: env_key_of_alt)
qed

lemma nbox_key_of_idem: "nbox_key_of (nbox_key_of k) = nbox_key_of k"
  by (simp add: nbox_key_of_def lstrip_chr_lower lstrip_chr_idem lower_idem)

text \<open>
  C3. Key normalization is idempotent for both parsers: for every key \<open>k\<close>, the dotenv
  key transform (trim, lowercase, replace \<open>_\<close> by \<open>-\<close>) applied twice gives what it
  gives applied once, and so does the structured-list key transform (strip the leading
  slashes, lowercase). The keys are all the strings of characters below 256, with
  Python's whitespace and case mapping on them.
\<close>
theorem key_normalization_idempotent:
  "env_key_of (env_key_of k) = env_key_of k \<and> nbox_key_of (nbox_key_of k) = nbox_key_of k"
  by (simp add: env_key_of_idem nbox_key_of_idem)


section \<open>Running a computation\<close>

lemma io_bind_return [simp]: "io_bind (io_return x) f = f x"
  by (rule ext) (simp add: io_bind_def io_return_def split: prod.splits)

lemma io_bind_raise [simp]: "io_bind (io_raise e) f = io_raise e"
  by (rule ext) (simp add: io_bind_def io_raise_def)

lemma io_bindE:
  assumes "io_bind m f s = (r, t, s')"
  obtains (raised) e where "m s = (Inl e, t, s')" "r = Inl e"
        | (returned) x t1 s1 t2 where "m s = (Inr x, t1, s1)" "f x s1 = (r, t2, s')" "t = t1 @ t2"
  using assms by (auto simp: io_bind_def split: prod.splits sum.splits)

lemma io_bind_emit:
  "io_bind (emit ev) f s = (case f () s of (r, t, s') \<Rightarrow> (r, ev # t, s'))"
  by (simp add: io_bind_def emit_def)

lemma lookups_append [simp]: "lookups (xs @ ys) = lookups xs @ lookups ys"
  by (induction xs rule: lookups.induct) auto

lemma batch_creates_append [simp]: "batch_creates (xs @ ys) = batch_creates xs @ batch_creates ys"
  by (induction xs rule: batch_creates.induct) auto

lemma posts_append [simp]: "posts (xs @ ys) = posts xs @ posts ys"
  by (induction xs rule: posts.induct) auto

lemma found_append [simp]: "found (xs @ ys) = found xs @ found ys"
  by (induction xs rule: found.induct) (auto split: option.splits)

lemma lookups_lookup_events [simp]: "lookups (lookup_events k rs) = [k]"
  by (simp add: lookup_events_def)

section \<open>The client\<close>

lemma client_get_entry_by_key_eq:
  "client_get_entry_by_key env k s =
     (case server env (GetKey (lstrip_chr CHR ''/'' k)) s of (rs, s1) \<Rightarrow>
        (if status_code rs = 200
         then (case json_body rs of Some j \<Rightarrow> Inr j | None \<Rightarrow> Inl JSONDecodeError)
         else Inl (RequestFailed (status_code rs) (text_of rs)),
         lookup_events k rs, s1))"
  by (simp add: client_get_entry_by_key_def io_bind_def emit_def http_def json_or_raise_def
      io_return_def io_raise_def lookup_events_def split: prod.splits option.splits)

lemma client_create_entries_eq:
  "client_create_entries env data s =
     (case server env (PostEntries data) s of (rs, s1) \<Rightarrow>
        (if status_code rs = 200
         then (case json_body rs of Some j \<Rightarrow> Inr j | None \<Rightarrow> Inl JSONDecodeError)
         else Inl (RequestFailed (status_code rs) (text_of rs)),
         [Call (CreateEntries data), Http (PostEntries data) rs], s1))"
  by (simp add: client_create_entries_def io_bind_def emit_def http_def json_or_raise_def
      io_return_def io_raise_def split: prod.splits option.splits)

section \<open>The changeset loop\<close>

lemma build_changeset_step:
  "build_changeset env (d # data) rows s =
     (case server env (GetKey (lstrip_chr CHR ''/'' (existing_key_name (draft_key d)))) s of
        (rs, s1) \<Rightarrow>
          (case old_value_cell env rs of
             Inl e \<Rightarrow> (Inl e, lookup_events (existing_key_name (draft_key d)) rs, s1)
           | Inr old \<Rightarrow>
               (case build_changeset env data (rows @ [changeset_row_of d old]) s1 of
                  (r, t, s') \<Rightarrow> (r, lookup_events (existing_key_name (draft_key d)) rs @ t, s'))))"
  by (simp add: io_bind_def client_get_entry_by_key_eq dict_get_def io_return_def io_raise_def
      old_value_cell_def changeset_row_of_def Let_def
      split: prod.splits sum.splits option.splits json.splits)

declare build_changeset.simps(2) [simp del]

lemma build_changeset_lookups:
  "build_changeset env data rows s = (r, t, s') \<Longrightarrow>
     prefix (lookups t) (map (\<lambda>d. existing_key_name (draft_key d)) data) \<and>
     (\<forall>rows'. r = Inr rows' \<longrightarrow> lookups t = map (\<lambda>d. existing_key_name (draft_key d)) data)"
proof (induction data arbitrary: rows s r t s')
  case Nil
  then show ?case by (simp add: io_return_def)
next
  case (Cons d data)
  show ?case using Cons.prems Cons.IH
    by (auto simp add: build_changeset_step split: prod.splits sum.splits)
qed

lemma build_changeset_quiet:
  "build_changeset env data rows s = (r, t, s') \<Longrightarrow>
     batch_creates t = [] \<and> posts t = [] \<and> AskConfirm \<notin> set t \<and> (\<forall>e \<in> set t. \<not> is_write e)
     \<and> (\<forall>m. Say m \<notin> set t)"
proof (induction data arbitrary: rows s r t s')
  case Nil
  then show ?case by (simp add: io_return_def)
next
  case (Cons d data)
  show ?case using Cons.prems Cons.IH
    by (auto simp add: build_changeset_step lookup_events_def split: prod.splits sum.splits)
qed

lemma changeset_table_lookups:
  assumes "changeset_table env no_changeset data s = (r, t, s')"
  shows "no_changeset \<Longrightarrow> t = []"
    and "\<not> no_changeset \<Longrightarrow> prefix (lookups t) (map (\<lambda>d. existing_key_name (draft_key d)) data)"
    and "\<not> no_changeset \<Longrightarrow> r = Inr tbl \<Longrightarrow>
           lookups t = map (\<lambda>d. existing_key_name (draft_key d)) data"
proof -
  show "no_changeset \<Longrightarrow> t = []"
    using assms by (simp add: changeset_table_def io_return_def)
  assume nc: "\<not> no_changeset"
  with assms have b: "io_bind (build_changeset env data []) (\<lambda>rows. io_return (Changeset rows)) s = (r, t, s')"
    by (simp add: changeset_table_def)
  then show "prefix (lookups t) (map (\<lambda>d. existing_key_name (draft_key d)) data)"
    by (elim io_bindE) (auto simp: io_return_def dest: build_changeset_lookups)
  show "lookups t = map (\<lambda>d. existing_key_name (draft_key d)) data" if "r = Inr tbl"
    using b that by (elim io_bindE) (auto simp: io_return_def dest: build_changeset_lookups)
qed

lemma changeset_table_quiet:
  assumes "changeset_table env no_changeset data s = (r, t, s')"
  shows "batch_creates t = [] \<and> posts t = [] \<and> AskConfirm \<notin> set t \<and> (\<forall>e \<in> set t. \<not> is_write e)
     \<and> (\<forall>m. Say m \<notin> set t)"
proof (cases no_changeset)
  case True
  with assms show ?thesis by (simp add: changeset_table_def io_return_def)
next
  case False
  with assms have "io_bind (build_changeset env data []) (\<lambda>rows. io_return (Changeset rows)) s = (r, t, s')"
    by (simp add: changeset_table_def)
  then show ?thesis
    by (elim io_bindE) (auto simp: io_return_def dest!: build_changeset_quiet)
qed

section \<open>The gate and the apply step\<close>

lemma confirm_or_exit_eq:
  "confirm_or_exit env s =
     (case confirm env of
        None \<Rightarrow> (Inl Abort, [AskConfirm], s)
      | Some False \<Rightarrow> (Inl (Exit 0), [AskConfirm, Say Cancelled], s)
      | Some True \<Rightarrow> (Inr (), [AskConfirm], s))"
  by (simp add: confirm_or_exit_def io_bind_def ask_confirm_def emit_def io_raise_def io_return_def
      split: option.splits bool.splits)

lemma apply_entries_eq:
  "apply_entries env data s =
   (case server env (PostEntries data) s of
      (rs, s2) \<Rightarrow>
        (if status_code rs = 200 \<and> json_body rs \<noteq> None
         then (Inr (),
               [Say (EntriesCreated (length data)), Call (CreateEntries data),
                Http (PostEntries data) rs], s2)
         else (Inl (Exit 1),
               [Say (EntriesCreated (length data)), Call (CreateEntries data),
                Http (PostEntries data) rs,
                Say (ErrorMsg (if status_code rs = 200 then JSONDecodeError
                               else RequestFailed (status_code rs) (text_of rs)))], s2)))"
  by (simp add: apply_entries_def io_bind_def io_try_def emit_def client_create_entries_eq
      io_return_def io_raise_def split: prod.splits option.splits)

text \<open>A run of \<open>import_data\<close> is the table, then the gate, then the apply step.\<close>
lemma import_dataE:
  assumes "import_data env no_changeset data s = (r, t, s')"
  obtains (no_table) e where "changeset_table env no_changeset data s = (Inl e, t, s')" "r = Inl e"
  | (aborted) tbl t0 where "changeset_table env no_changeset data s = (Inr tbl, t0, s')"
      "confirm env = None" "r = Inl Abort" "t = t0 @ [Print tbl, AskConfirm]"
  | (cancelled) tbl t0 where "changeset_table env no_changeset data s = (Inr tbl, t0, s')"
      "confirm env = Some False" "r = Inl (Exit 0)" "t = t0 @ [Print tbl, AskConfirm, Say Cancelled]"
  | (applied) tbl t0 s1 t1 where "changeset_table env no_changeset data s = (Inr tbl, t0, s1)"
      "confirm env = Some True" "apply_entries env data s1 = (r, t1, s')"
      "t = t0 @ [Print tbl, AskConfirm] @ t1"
proof -
  from assms show thesis
    unfolding import_data_def
  proof (cases rule: io_bindE)
    case (raised e)
    then show ?thesis by (rule no_table)
  next
    case (returned tbl t0 s1 t2)
    from returned(2) have
      "(case io_bind (confirm_or_exit env) (\<lambda>_. apply_entries env data) s1 of
          (r, t, s') \<Rightarrow> (r, Print tbl # t, s')) = (r, t2, s')"
      by (simp add: io_bind_emit)
    then obtain t3 where t3: "io_bind (confirm_or_exit env) (\<lambda>_. apply_entries env data) s1 = (r, t3, s')"
      "t2 = Print tbl # t3"
      by (auto split: prod.splits)
    show ?thesis
    proof (cases "confirm env")
      case None
      with t3 returned show ?thesis
        by (intro aborted[of tbl t0]) (auto simp: io_bind_def confirm_or_exit_eq)
    next
      case (Some yes)
      show ?thesis
      proof (cases yes)
        case False
        with Some t3 returned show ?thesis
          by (intro cancelled[of tbl t0]) (auto simp: io_bind_def confirm_or_exit_eq)
      next
        case True
        with Some t3(1) have
          "(case apply_entries env data s1 of (r, t, s') \<Rightarrow> (r, AskConfirm # t, s')) = (r, t3, s')"
          by (simp add: io_bind_def confirm_or_exit_eq)
        then obtain t1 where t1: "apply_entries env data s1 = (r, t1, s')" "t3 = AskConfirm # t1"
          by (auto split: prod.splits)
        from Some True have c: "confirm env = Some True" by simp
        show ?thesis
          by (rule applied[OF returned(1) c t1(1)]) (simp add: returned(3) t3(2) t1(2))
      qed
    qed
  qed
qed

lemma events_of_eq: "m = (r, t, s') \<Longrightarrow> events_of m = t"
  by (simp add: events_of_def)

lemma run_cases: obtains r t s' where "(m :: (exn + 'a) \<times> event list \<times> 's) = (r, t, s')" "events_of m = t" "result_of m = r"
  by (cases m) (auto simp: events_of_def result_of_def)

section \<open>Remote lookups of the two modes\<close>

lemma answers_append [simp]: "answers (xs @ ys) = answers xs @ answers ys"
  by (induction xs rule: answers.induct) auto

lemma answers_lookup_events [simp]: "answers (lookup_events k rs) = [rs]"
  by (simp add: lookup_events_def)

lemma lookup_ok_iff: "lookup_ok env rs \<longleftrightarrow> (\<exists>old. old_value_cell env rs = Inr old)"
  by (auto simp: lookup_ok_def old_value_cell_def Let_def split: option.splits json.splits)

lemma build_changeset_answers:
  "build_changeset env data rows s = (r, t, s') \<Longrightarrow>
     length (answers t) = length (lookups t) \<and>
     list_all (lookup_ok env) (butlast (answers t)) \<and>
     ((\<exists>rows'. r = Inr rows') \<longleftrightarrow> list_all (lookup_ok env) (answers t))"
proof (induction data arbitrary: rows s r t s')
  case Nil
  then show ?case by (auto simp add: io_return_def)
next
  case (Cons d data)
  let ?k = "existing_key_name (draft_key d)"
  obtain rs s1 where srv: "server env (GetKey (lstrip_chr CHR ''/'' ?k)) s = (rs, s1)"
    by (cases "server env (GetKey (lstrip_chr CHR ''/'' ?k)) s")
  show ?case
  proof (cases "old_value_cell env rs")
    case (Inl e)
    with Cons.prems srv have "r = Inl e" "t = lookup_events ?k rs"
      by (simp_all add: build_changeset_step)
    moreover from Inl have "\<not> lookup_ok env rs" by (simp add: lookup_ok_iff)
    ultimately show ?thesis by simp
  next
    case (Inr old)
    then have ok: "lookup_ok env rs" by (auto simp: lookup_ok_iff)
    from Cons.prems srv Inr obtain t1 where
      rest: "build_changeset env data (rows @ [changeset_row_of d old]) s1 = (r, t1, s')"
      and t: "t = lookup_events ?k rs @ t1"
      by (auto simp: build_changeset_step split: prod.splits)
    from Cons.IH[OF rest] have ih:
      "length (answers t1) = length (lookups t1)"
      "list_all (lookup_ok env) (butlast (answers t1))"
      "(\<exists>rows'. r = Inr rows') \<longleftrightarrow> list_all (lookup_ok env) (answers t1)"
      by auto
    from t ok ih show ?thesis by (simp add: butlast_append)
  qed
qed

lemma answers_apply_entries: "apply_entries env data s = (r, t, s') \<Longrightarrow> answers t = []"
  by (auto simp: apply_entries_eq split: prod.splits if_splits)

lemma lookups_apply_entries: "apply_entries env data s = (r, t, s') \<Longrightarrow> lookups t = []"
  by (auto simp: apply_entries_eq split: prod.splits if_splits)

lemma changeset_table_answers:
  assumes "changeset_table env False data s = (r, t, s')"
  shows "length (answers t) = length (lookups t) \<and>
         list_all (lookup_ok env) (butlast (answers t)) \<and>
         ((\<exists>tbl. r = Inr tbl) \<longleftrightarrow> list_all (lookup_ok env) (answers t))"
proof -
  from assms have "io_bind (build_changeset env data []) (\<lambda>rows. io_return (Changeset rows)) s = (r, t, s')"
    by (simp add: changeset_table_def)
  then show ?thesis
  proof (cases rule: io_bindE)
    case (raised e)
    from build_changeset_answers[OF raised(1)] raised(2) show ?thesis by simp
  next
    case (returned rows t1 s1 t2)
    from returned(2) have "t2 = []" "r = Inr (Changeset rows)" by (simp_all add: io_return_def)
    with build_changeset_answers[OF returned(1)] returned(3) show ?thesis by simp
  qed
qed

lemma import_data_lookups:
  assumes run: "import_data env no_changeset data s = (r, t, s')"
  shows "no_changeset \<Longrightarrow> lookups t = []"
    and "\<not> no_changeset \<Longrightarrow>
      prefix (lookups t) (map (\<lambda>d. existing_key_name (draft_key d)) data) \<and>
      length (answers t) = length (lookups t) \<and>
      list_all (lookup_ok env) (butlast (answers t)) \<and>
      (list_all (lookup_ok env) (answers t) \<longrightarrow>
         lookups t = map (\<lambda>d. existing_key_name (draft_key d)) data) \<and>
      (AskConfirm \<in> set t \<longleftrightarrow> list_all (lookup_ok env) (answers t)) \<and>
      (AskConfirm \<in> set t \<longrightarrow> lookups t = map (\<lambda>d. existing_key_name (draft_key d)) data)"
proof -
  show "lookups t = []" if "no_changeset"
    using run
  proof (cases rule: import_dataE)
    case (no_table e)
    from changeset_table_lookups(1)[OF no_table(1) that] show ?thesis by auto
  next
    case (aborted tbl t0)
    from changeset_table_lookups(1)[OF aborted(1) that] aborted(4) show ?thesis by auto
  next
    case (cancelled tbl t0)
    from changeset_table_lookups(1)[OF cancelled(1) that] cancelled(4) show ?thesis by auto
  next
    case (applied tbl t0 s1 t1)
    from changeset_table_lookups(1)[OF applied(1) that] applied(4)
      lookups_apply_entries[OF applied(3)]
    show ?thesis by auto
  qed
  let ?keys = "map (\<lambda>d. existing_key_name (draft_key d)) data"
  let ?ok = "list_all (lookup_ok env)"
  show "prefix (lookups t) ?keys \<and> length (answers t) = length (lookups t) \<and>
      ?ok (butlast (answers t)) \<and> (?ok (answers t) \<longrightarrow> lookups t = ?keys) \<and>
      (AskConfirm \<in> set t \<longleftrightarrow> ?ok (answers t)) \<and> (AskConfirm \<in> set t \<longrightarrow> lookups t = ?keys)"
    if nc: "\<not> no_changeset"
  proof -
    from run nc have run': "import_data env False data s = (r, t, s')" by simp
    from run' show ?thesis
    proof (cases rule: import_dataE)
      case (no_table e)
      from changeset_table_answers[OF no_table(1)] no_table(2)
        changeset_table_lookups(2)[OF no_table(1)] changeset_table_quiet[OF no_table(1)]
      show ?thesis by auto
    next
      case (aborted tbl t0)
      from changeset_table_answers[OF aborted(1)] changeset_table_lookups(2,3)[OF aborted(1)]
        aborted(4)
      show ?thesis by auto
    next
      case (cancelled tbl t0)
      from changeset_table_answers[OF cancelled(1)] changeset_table_lookups(2,3)[OF cancelled(1)]
        cancelled(4)
      show ?thesis by auto
    next
      case (applied tbl t0 s1 t1)
      from changeset_table_answers[OF applied(1)] changeset_table_lookups(2,3)[OF applied(1)]
        applied(4) lookups_apply_entries[OF applied(3)] answers_apply_entries[OF applied(3)]
      show ?thesis by auto
    qed
  qed
qed



text \<open>Three drafts, the second lookup answered with status 500: two lookups, no gate.\<close>
lemma lookups_stop_example:
  "lookups (events_of (import_data
      (example_env (\<lambda>rq. if rq = GetKey ''b'' then failed 500 else ok JNull) [] None (Some True))
      False [entry ''a'' (JStr ''1''), entry ''b'' (JStr ''2''), entry ''c'' (JStr ''3'')] ())) =
     [''a'', ''b''] \<and>
   result_of (import_data
      (example_env (\<lambda>rq. if rq = GetKey ''b'' then failed 500 else ok JNull) [] None (Some True))
      False [entry ''a'' (JStr ''1''), entry ''b'' (JStr ''2''), entry ''c'' (JStr ''3'')] ()) =
     Inl (RequestFailed 500 [])"
  by code_simp



section \<open>The batch write\<close>

text \<open>
  C5. A confirmed bulk import of the drafts \<open>data\<close> makes exactly one batch-create call,
  which is one POST request, and its body is the whole list \<open>data\<close>.
\<close>
theorem one_batch_create:
  assumes "AskConfirm \<in> set (events_of (import_data env no_changeset data s))"
    and "confirm env = Some True"
  shows "batch_creates (events_of (import_data env no_changeset data s)) = [data] \<and>
         posts (events_of (import_data env no_changeset data s)) = [data]"
proof -
  obtain r t s' where run: "import_data env no_changeset data s = (r, t, s')"
    and ev: "events_of (import_data env no_changeset data s) = t"
    by (rule run_cases[of "import_data env no_changeset data s"]) 
  from assms(1) ev have ask: "AskConfirm \<in> set t" by simp
  have "batch_creates t = [data] \<and> posts t = [data]"
    using run
  proof (cases rule: import_dataE)
    case (no_table e)
    with changeset_table_quiet[OF no_table(1)] ask show ?thesis by simp
  next
    case (aborted tbl t0)
    with assms(2) show ?thesis by simp
  next
    case (cancelled tbl t0)
    with assms(2) show ?thesis by simp
  next
    case (applied tbl t0 s1 t1)
    from applied(3) have "batch_creates t1 = [data] \<and> posts t1 = [data]"
      by (auto simp: apply_entries_eq split: prod.splits if_splits)
    with changeset_table_quiet[OF applied(1)] applied(4)
    show ?thesis by simp
  qed
  then show ?thesis unfolding ev .
qed

theorem one_batch_create_witness:
  "AskConfirm \<in> set (events_of (import_data (example_env (\<lambda>rq. ok JNull) [] None (Some True))
       False [entry ''app/db-host'' (JStr ''1''), entry ''b'' (JStr ''2'')] ())) \<and>
   confirm (example_env (\<lambda>rq. ok JNull) [] None (Some True)) = Some True \<and>
   batch_creates (events_of (import_data (example_env (\<lambda>rq. ok JNull) [] None (Some True))
       False [entry ''app/db-host'' (JStr ''1''), entry ''b'' (JStr ''2'')] ())) =
     [[entry ''app/db-host'' (JStr ''1''), entry ''b'' (JStr ''2'')]] \<and>
   posts (events_of (import_data (example_env (\<lambda>rq. ok JNull) [] None (Some True))
       False [entry ''app/db-host'' (JStr ''1''), entry ''b'' (JStr ''2'')] ())) =
     [[entry ''app/db-host'' (JStr ''1''), entry ''b'' (JStr ''2'')]]"
proof -
  let ?env = "example_env (\<lambda>rq. ok JNull) [] None (Some True)"
  let ?data = "[entry ''app/db-host'' (JStr ''1''), entry ''b'' (JStr ''2'')]"
  have ask: "AskConfirm \<in> set (events_of (import_data ?env False ?data ()))"
    by code_simp
  have yes: "confirm ?env = Some True"
    by (simp add: example_env_def)
  from one_batch_create[OF ask yes] ask yes show ?thesis by blast
qed


section \<open>Splitting and joining\<close>

lemma split_on_not_Nil [simp]: "split_on c s \<noteq> []"
  by (induction s) (auto split: list.splits)

lemma split_on_no_sep: "p \<in> set (split_on c s) \<Longrightarrow> c \<notin> set p"
  by (induction s arbitrary: p) (auto split: if_splits list.splits)

lemma split_on_append_no_sep:
  "c \<notin> set p \<Longrightarrow> split_on c (p @ c # s) = p # split_on c s"
  by (induction p) (auto split: list.splits)

lemma split_on_no_sep_id: "c \<notin> set p \<Longrightarrow> split_on c p = [p]"
  by (induction p) (auto split: list.splits)

lemma split_on_join:
  "ps \<noteq> [] \<Longrightarrow> (\<forall>p \<in> set ps. c \<notin> set p) \<Longrightarrow> split_on c (join [c] ps) = ps"
proof (induction "[c]" ps rule: join.induct)
  case 1
  then show ?case by simp
next
  case (2 p)
  then show ?case by (simp add: split_on_no_sep_id)
next
  case (3 p q ps)
  then show ?case by (simp add: split_on_append_no_sep)
qed

lemma join_split_on: "join [c] (split_on c s) = s"
proof (induction s)
  case Nil
  then show ?case by simp
next
  case (Cons x s)
  then show ?case
    by (cases "split_on c s"; cases "tl (split_on c s)") (auto split: list.splits)
qed

lemma existing_key_name_parts:
  "split_on CHR ''/'' (existing_key_name k) =
     butlast (split_on CHR ''/'' (lower k)) @
       [replace_chr CHR ''-'' CHR ''_'' (last (split_on CHR ''/'' (lower k)))]"
proof -
  let ?parts = "split_on CHR ''/'' (lower k)"
  have "\<forall>p \<in> set (butlast ?parts @ [replace_chr CHR ''-'' CHR ''_'' (last ?parts)]). CHR ''/'' \<notin> set p"
  proof
    fix p assume "p \<in> set (butlast ?parts @ [replace_chr CHR ''-'' CHR ''_'' (last ?parts)])"
    then consider "p \<in> set (butlast ?parts)" | "p = replace_chr CHR ''-'' CHR ''_'' (last ?parts)"
      by auto
    then show "CHR ''/'' \<notin> set p"
    proof cases
      case 1
      then have "p \<in> set ?parts" by (rule in_set_butlastD)
      then show ?thesis by (rule split_on_no_sep)
    next
      case 2
      have "last ?parts \<in> set ?parts" by simp
      then have "CHR ''/'' \<notin> set (last ?parts)" by (rule split_on_no_sep)
      with 2 show ?thesis by (auto simp: replace_chr_def split: if_splits)
    qed
  qed
  then show ?thesis
    by (simp add: existing_key_name_def Let_def split_on_join)
qed

lemma existing_key_name_example: "existing_key_name ''app/db-host'' = ''app/db_host''"
  by code_simp

lemma existing_key_name_segments_example: "existing_key_name ''My-App/Sub-Dir/DB-Host-1'' = ''my-app/sub-dir/db_host_1''"
  by code_simp

section \<open>The lookup key of the changeset\<close>

text \<open>
  C1. In changeset mode the key of every lookup is the draft key in lower case with \<open>-\<close>
  replaced by \<open>_\<close> in its last segment only: split on \<open>/\<close>, it has the segments of the
  lowercased draft key, the last one with the replacement and the others as they are. The
  \<open>i\<close>-th lookup is that of the \<open>i\<close>-th draft. Whatever batch write follows carries the
  drafts as they are, so \<open>app/db-host\<close> is looked up as \<open>app/db_host\<close> and written as
  \<open>app/db-host\<close>.
\<close>
theorem changeset_lookup_key:
  "split_on CHR ''/'' (existing_key_name k) =
     butlast (split_on CHR ''/'' (lower k)) @
       [replace_chr CHR ''-'' CHR ''_'' (last (split_on CHR ''/'' (lower k)))] \<and>
   existing_key_name ''app/db-host'' = ''app/db_host'' \<and>
   (\<forall>i < length (lookups (events_of (import_data env False data s))).
      lookups (events_of (import_data env False data s)) ! i =
        existing_key_name (draft_key (data ! i))) \<and>
   (\<forall>body \<in> set (batch_creates (events_of (import_data env False data s))). body = data) \<and>
   (\<forall>body \<in> set (posts (events_of (import_data env False data s))). body = data)"
proof -
  obtain r t s' where run: "import_data env False data s = (r, t, s')"
    and ev: "events_of (import_data env False data s) = t"
    by (rule run_cases[of "import_data env False data s"])
  let ?keys = "map (\<lambda>d. existing_key_name (draft_key d)) data"
  from import_data_lookups(2)[OF run] have pre: "prefix (lookups t) ?keys"
    by simp
  have idx: "lookups t ! i = existing_key_name (draft_key (data ! i))" if "i < length (lookups t)" for i
  proof -
    from pre obtain zs where zs: "?keys = lookups t @ zs" by (auto simp: prefix_def)
    then have "length (lookups t) \<le> length data"
      by (metis length_append length_map le_add1)
    with that have "i < length data" by simp
    then have "?keys ! i = existing_key_name (draft_key (data ! i))" by simp
    moreover from zs that have "?keys ! i = lookups t ! i" by (simp add: nth_append)
    ultimately show ?thesis by simp
  qed
  have writes: "(\<forall>body \<in> set (batch_creates t). body = data) \<and> (\<forall>body \<in> set (posts t). body = data)"
    using run
  proof (cases rule: import_dataE)
    case (no_table e)
    with changeset_table_quiet[OF no_table(1)] show ?thesis by simp
  next
    case (aborted tbl t0)
    with changeset_table_quiet[OF aborted(1)] show ?thesis by simp
  next
    case (cancelled tbl t0)
    with changeset_table_quiet[OF cancelled(1)] show ?thesis by simp
  next
    case (applied tbl t0 s1 t1)
    from applied(3) have "batch_creates t1 = [data] \<and> posts t1 = [data]"
      by (auto simp: apply_entries_eq split: prod.splits if_splits)
    with changeset_table_quiet[OF applied(1)] applied(4)
    show ?thesis by simp
  qed
  have ex: "existing_key_name ''app/db-host'' = ''app/db_host''"
    by code_simp
  from idx writes ex existing_key_name_parts[of k] show ?thesis
    unfolding ev by blast
qed

theorem changeset_lookup_key_witness:
  "0 < length (lookups (events_of (import_data (example_env (\<lambda>rq. ok JNull) [] None (Some True))
       False [entry ''app/db-host'' (JStr ''1'')] ()))) \<and>
   lookups (events_of (import_data (example_env (\<lambda>rq. ok JNull) [] None (Some True))
       False [entry ''app/db-host'' (JStr ''1'')] ())) ! 0 = ''app/db_host'' \<and>
   [entry ''app/db-host'' (JStr ''1'')] \<in> set (batch_creates (events_of (import_data
       (example_env (\<lambda>rq. ok JNull) [] None (Some True))
       False [entry ''app/db-host'' (JStr ''1'')] ()))) \<and>
   [entry ''app/db-host'' (JStr ''1'')] \<in> set (posts (events_of (import_data
       (example_env (\<lambda>rq. ok JNull) [] None (Some True))
       False [entry ''app/db-host'' (JStr ''1'')] ())))"
proof -
  let ?env = "example_env (\<lambda>rq. ok JNull) [] None (Some True)"
  let ?data = "[entry ''app/db-host'' (JStr ''1'')]"
  have one: "0 < length (lookups (events_of (import_data ?env False ?data ())))"
    by code_simp
  have two: "?data \<in> set (batch_creates (events_of (import_data ?env False ?data ())))"
    by code_simp
  have three: "?data \<in> set (posts (events_of (import_data ?env False ?data ())))"
    by code_simp
  have key: "draft_key (?data ! 0) = ''app/db-host''"
    by (simp add: entry_def)
  from changeset_lookup_key[of "''app/db-host''" ?env ?data "()"] one
  have "lookups (events_of (import_data ?env False ?data ())) ! 0 = ''app/db_host''"
    using key by metis
  with one two three show ?thesis by blast
qed

section \<open>The old value of a changeset row\<close>

lemma old_value_cell_Inr:
  assumes "old_value_cell env rs = Inr old"
  obtains j where "status_code rs = 200" "json_body rs = Some j"
    "\<not> truthy j \<longrightarrow> old = JStr []"
    "truthy j \<longrightarrow> (\<exists>kvs. j = JObj kvs \<and>
        old = (case map_of kvs ''value'' of Some v \<Rightarrow> v | None \<Rightarrow> JStr []))"
  using assms
  by (auto simp: old_value_cell_def Let_def split: if_splits option.splits json.splits)

lemma found_lookup_events:
  "status_code rs = 200 \<Longrightarrow> json_body rs = Some j \<Longrightarrow>
     found (lookup_events k rs) = [(lstrip_chr CHR ''/'' k, j)]"
  by (simp add: lookup_events_def)

lemma build_changeset_rows:
  "build_changeset env data rows s = (Inr rows', t, s') \<Longrightarrow>
     \<exists>new. rows' = rows @ new \<and> length new = length data \<and> length (found t) = length data \<and>
           (\<forall>i < length data. row_matches (new ! i) (data ! i) (found t ! i))"
proof (induction data arbitrary: rows s t)
  case Nil
  then show ?case by (simp add: io_return_def)
next
  case (Cons d data)
  let ?k = "existing_key_name (draft_key d)"
  obtain rs s1 where srv: "server env (GetKey (lstrip_chr CHR ''/'' ?k)) s = (rs, s1)"
    by (cases "server env (GetKey (lstrip_chr CHR ''/'' ?k)) s")
  from Cons.prems srv obtain old t1 where
    old: "old_value_cell env rs = Inr old" and
    rest: "build_changeset env data (rows @ [changeset_row_of d old]) s1 = (Inr rows', t1, s')" and
    t: "t = lookup_events ?k rs @ t1"
    by (auto simp: build_changeset_step split: sum.splits prod.splits)
  from old obtain j where j: "status_code rs = 200" "json_body rs = Some j"
    "\<not> truthy j \<longrightarrow> old = JStr []"
    "truthy j \<longrightarrow> (\<exists>kvs. j = JObj kvs \<and>
        old = (case map_of kvs ''value'' of Some v \<Rightarrow> v | None \<Rightarrow> JStr []))"
    by (rule old_value_cell_Inr)
  from Cons.IH[OF rest] obtain new where new:
    "rows' = (rows @ [changeset_row_of d old]) @ new" "length new = length data"
    "length (found t1) = length data"
    "\<forall>i < length data. row_matches (new ! i) (data ! i) (found t1 ! i)"
    by blast
  have f: "found t = (lstrip_chr CHR ''/'' ?k, j) # found t1"
    using t j(1,2) by (simp add: found_lookup_events)
  have first: "row_matches (changeset_row_of d old) d (lstrip_chr CHR ''/'' ?k, j)"
    using j(3,4) by (simp add: row_matches_def changeset_row_of_def)
  have "\<forall>i < length (d # data).
          row_matches ((changeset_row_of d old # new) ! i) ((d # data) ! i) (found t ! i)"
  proof (intro allI impI)
    fix i assume "i < length (d # data)"
    then show "row_matches ((changeset_row_of d old # new) ! i) ((d # data) ! i) (found t ! i)"
      using first new(4) f by (cases i) simp_all
  qed
  with new(1,2,3) f show ?case
    by (intro exI[of _ "changeset_row_of d old # new"]) simp
qed

lemma build_changeset_no_print:
  "build_changeset env data rows s = (r, t, s') \<Longrightarrow> Print tbl \<notin> set t"
proof (induction data arbitrary: rows s r t s')
  case Nil
  then show ?case by (simp add: io_return_def)
next
  case (Cons d data)
  show ?case using Cons.prems Cons.IH
    by (auto simp add: build_changeset_step lookup_events_def split: prod.splits sum.splits)
qed

lemma changeset_table_Inr:
  assumes "changeset_table env False data s = (Inr tbl, t0, s1)"
  obtains rows where "tbl = Changeset rows" "build_changeset env data [] s = (Inr rows, t0, s1)"
  using assms
  by (auto simp: changeset_table_def io_return_def elim!: io_bindE)

lemma changeset_table_no_print:
  assumes "changeset_table env False data s = (r, t, s')"
  shows "Print tbl \<notin> set t"
  using assms
  by (auto simp: changeset_table_def io_return_def elim!: io_bindE dest: build_changeset_no_print)

lemma found_apply_entries: "apply_entries env data s = (r, t, s') \<Longrightarrow> found t = []"
  by (auto simp: apply_entries_eq split: prod.splits if_splits)

lemma no_print_apply_entries: "apply_entries env data s = (r, t, s') \<Longrightarrow> Print tbl \<notin> set t"
  by (auto simp: apply_entries_eq split: prod.splits if_splits)

lemma import_data_printed:
  assumes "import_data env False data s = (r, t, s')" and "Print (Changeset rows) \<in> set t"
  shows "\<exists>t0 s1. build_changeset env data [] s = (Inr rows, t0, s1) \<and> found t = found t0"
  using assms(1)
proof (cases rule: import_dataE)
  case (no_table e)
  with changeset_table_no_print[OF no_table(1)] assms(2) show ?thesis by simp
next
  case (aborted tbl t0)
  from aborted(1) obtain rows' where r: "tbl = Changeset rows'"
    "build_changeset env data [] s = (Inr rows', t0, s')"
    by (rule changeset_table_Inr)
  from assms(2) aborted(4) changeset_table_no_print[OF aborted(1)] r(1) have "rows' = rows"
    by auto
  with r(2) aborted(4) show ?thesis by auto
next
  case (cancelled tbl t0)
  from cancelled(1) obtain rows' where r: "tbl = Changeset rows'"
    "build_changeset env data [] s = (Inr rows', t0, s')"
    by (rule changeset_table_Inr)
  from assms(2) cancelled(4) changeset_table_no_print[OF cancelled(1)] r(1) have "rows' = rows"
    by auto
  with r(2) cancelled(4) show ?thesis by auto
next
  case (applied tbl t0 s1 t1)
  from applied(1) obtain rows' where r: "tbl = Changeset rows'"
    "build_changeset env data [] s = (Inr rows', t0, s1)"
    by (rule changeset_table_Inr)
  from assms(2) applied(4) changeset_table_no_print[OF applied(1)]
    no_print_apply_entries[OF applied(3)] r(1) have "rows' = rows"
    by auto
  with r(2) applied(4) found_apply_entries[OF applied(3)] show ?thesis by auto
qed

text \<open>
  C8, as the code has it. In a changeset that was built, there is one row per draft and one
  answer of the store per row, for the row's lookup key. Where the store answered with no
  entry (an empty body), the old value of the row is empty; where it answered with an
  entry, the old value is that entry's value, and empty when the entry has no value field.
\<close>
theorem changeset_old_value:
  assumes "Print (Changeset rows) \<in> set (events_of (import_data env False data s))"
  shows "length rows = length data \<and>
         length (found (events_of (import_data env False data s))) = length data \<and>
         (\<forall>i < length rows.
            fst (found (events_of (import_data env False data s)) ! i) =
              lstrip_chr CHR ''/'' (existing_key_name (draft_key (data ! i))) \<and>
            (\<not> truthy (snd (found (events_of (import_data env False data s)) ! i)) \<longrightarrow>
               old_value (rows ! i) = JStr []) \<and>
            (truthy (snd (found (events_of (import_data env False data s)) ! i)) \<longrightarrow>
               (\<exists>kvs. snd (found (events_of (import_data env False data s)) ! i) = JObj kvs \<and>
                  old_value (rows ! i) =
                    (case map_of kvs ''value'' of Some v \<Rightarrow> v | None \<Rightarrow> JStr []))))"
proof -
  obtain r t s' where run: "import_data env False data s = (r, t, s')"
    and ev: "events_of (import_data env False data s) = t"
    by (rule run_cases[of "import_data env False data s"])
  from assms ev have "Print (Changeset rows) \<in> set t" by simp
  from import_data_printed[OF run this] obtain t0 s1 where
    b: "build_changeset env data [] s = (Inr rows, t0, s1)" and f: "found t = found t0"
    by blast
  from build_changeset_rows[OF b] have
    "length rows = length data" "length (found t0) = length data"
    "\<forall>i < length data. row_matches (rows ! i) (data ! i) (found t0 ! i)"
    by auto
  then show ?thesis
    unfolding ev f by (simp add: row_matches_def)
qed

text \<open>
  C8 as it is stated fails from right to left: a remote entry whose value is the empty
  string exists, and the old value of its row is empty.
\<close>
theorem changeset_old_value_counterexample:
  "Print (Changeset [\<lparr>row_key = ''a'', old_value = JStr [], new_value = JStr ''1'',
                      row_secure = JBool False\<rparr>])
     \<in> set (events_of (import_data
         (example_env (\<lambda>rq. ok (JObj [(''key'', JStr ''a''), (''value'', JStr [])])) [] None (Some True))
         False [entry ''a'' (JStr ''1'')] ())) \<and>
   found (events_of (import_data
         (example_env (\<lambda>rq. ok (JObj [(''key'', JStr ''a''), (''value'', JStr [])])) [] None (Some True))
         False [entry ''a'' (JStr ''1'')] ())) =
     [(''a'', JObj [(''key'', JStr ''a''), (''value'', JStr [])])] \<and>
   truthy (JObj [(''key'', JStr ''a''), (''value'', JStr [])])"
  by code_simp

theorem changeset_old_value_witness:
  "Print (Changeset [\<lparr>row_key = ''app/db-host'', old_value = JStr ''old'', new_value = JStr ''1'',
                      row_secure = JBool False\<rparr>])
     \<in> set (events_of (import_data
         (example_env (\<lambda>rq. ok (JObj [(''key'', JStr ''app/db_host''), (''value'', JStr ''old'')]))
            [] None (Some True))
         False [entry ''app/db-host'' (JStr ''1'')] ())) \<and>
   truthy (snd (found (events_of (import_data
         (example_env (\<lambda>rq. ok (JObj [(''key'', JStr ''app/db_host''), (''value'', JStr ''old'')]))
            [] None (Some True))
         False [entry ''app/db-host'' (JStr ''1'')] ())) ! 0)) \<and>
   fst (found (events_of (import_data
         (example_env (\<lambda>rq. ok (JObj [(''key'', JStr ''app/db_host''), (''value'', JStr ''old'')]))
            [] None (Some True))
         False [entry ''app/db-host'' (JStr ''1'')] ())) ! 0) =
     lstrip_chr CHR ''/'' (existing_key_name (draft_key ([entry ''app/db-host'' (JStr ''1'')] ! 0))) \<and>
   (\<exists>kvs. snd (found (events_of (import_data
         (example_env (\<lambda>rq. ok (JObj [(''key'', JStr ''app/db_host''), (''value'', JStr ''old'')]))
            [] None (Some True))
         False [entry ''app/db-host'' (JStr ''1'')] ())) ! 0) = JObj kvs \<and>
      JStr ''old'' = (case map_of kvs ''value'' of Some v \<Rightarrow> v | None \<Rightarrow> JStr []))"
proof -
  let ?env = "example_env (\<lambda>rq. ok (JObj [(''key'', JStr ''app/db_host''), (''value'', JStr ''old'')]))
            [] None (Some True)"
  let ?data = "[entry ''app/db-host'' (JStr ''1'')]"
  let ?rows = "[\<lparr>row_key = ''app/db-host'', old_value = JStr ''old'', new_value = JStr ''1'',
                      row_secure = JBool False\<rparr>]"
  have p: "Print (Changeset ?rows) \<in> set (events_of (import_data ?env False ?data ()))"
    by code_simp
  have tr: "truthy (snd (found (events_of (import_data ?env False ?data ())) ! 0))"
    by code_simp
  from changeset_old_value[OF p] p tr show ?thesis by simp
qed

section \<open>The success report\<close>

text \<open>
  In every run the count of entries created is said before the batch-create call is made:
  the report is the first event of the apply step, the call the second.
\<close>
lemma success_report_precedes_write:
  assumes "Say (EntriesCreated n) \<in> set (events_of (import_data env no_changeset data s))"
  shows "\<exists>before rs after. events_of (import_data env no_changeset data s) =
           before @ [Say (EntriesCreated (length data)), Call (CreateEntries data),
                     Http (PostEntries data) rs] @ after \<and>
           batch_creates before = [] \<and> posts before = []"
proof -
  obtain r t s' where run: "import_data env no_changeset data s = (r, t, s')"
    and ev: "events_of (import_data env no_changeset data s) = t"
    by (rule run_cases[of "import_data env no_changeset data s"])
  from assms ev have said: "Say (EntriesCreated n) \<in> set t" by simp
  have "\<exists>before rs after. t =
           before @ [Say (EntriesCreated (length data)), Call (CreateEntries data),
                     Http (PostEntries data) rs] @ after \<and>
           batch_creates before = [] \<and> posts before = []"
    using run
  proof (cases rule: import_dataE)
    case (no_table e)
    with changeset_table_quiet[OF no_table(1)] said show ?thesis by simp
  next
    case (aborted tbl t0)
    with changeset_table_quiet[OF aborted(1)] said show ?thesis by simp
  next
    case (cancelled tbl t0)
    with changeset_table_quiet[OF cancelled(1)] said show ?thesis by simp
  next
    case (applied tbl t0 s1 t1)
    from applied(3) obtain rs after where
      "t1 = [Say (EntriesCreated (length data)), Call (CreateEntries data),
             Http (PostEntries data) rs] @ after"
      by (auto simp: apply_entries_eq split: prod.splits if_splits)
    with applied(4) changeset_table_quiet[OF applied(1)] show ?thesis
      by (intro exI[of _ "t0 @ [Print tbl, AskConfirm]"] exI[of _ rs] exI[of _ after]) simp
  qed
  then show ?thesis unfolding ev .
qed

text \<open>
  C9 fails on the code. With one draft, a yes at the gate and a store that answers the
  batch create with status 500, the run says that one entry was created, then makes the
  call, then says the error and exits with 1.
\<close>
theorem success_reported_before_failed_write:
  "events_of (import_data (example_env (\<lambda>rq. failed 500) [] None (Some True)) True
      [entry ''a'' (JStr ''1'')] ()) =
     [Print (Listing [[JStr ''a'', JStr ''1'', JBool False]]),
      AskConfirm,
      Say (EntriesCreated 1),
      Call (CreateEntries [entry ''a'' (JStr ''1'')]),
      Http (PostEntries [entry ''a'' (JStr ''1'')]) (failed 500),
      Say (ErrorMsg (RequestFailed 500 []))] \<and>
   result_of (import_data (example_env (\<lambda>rq. failed 500) [] None (Some True)) True
      [entry ''a'' (JStr ''1'')] ()) = Inl (Exit 1)"
  by code_simp


section \<open>The dotenv parser\<close>

lemma isspace_nl: "isspace (CHR 0x0A)"
  by (simp add: isspace_def)

lemma rstrip_Cons:
  "rstrip (x # p) = (if rstrip p = [] then (if isspace x then [] else [x]) else x # rstrip p)"
  by (simp add: rstrip_def dropWhile_append)

lemma rstrip_snoc: "rstrip (p @ [x]) = (if isspace x then rstrip p else p @ [x])"
  by (simp add: rstrip_def)

lemma strip_Cons_space: "isspace x \<Longrightarrow> strip (x # p) = strip p"
  by (simp add: strip_def rstrip_Cons lstrip_def)

lemma strip_snoc_space: "isspace x \<Longrightarrow> strip (p @ [x]) = strip p"
  by (simp add: strip_def rstrip_snoc)

lemma strip_Nil [simp]: "strip [] = []"
  by (simp add: strip_def lstrip_def rstrip_def)

lemma parse_env_line_cong: "strip l = strip l' \<Longrightarrow> parse_env_line l = parse_env_line l'"
  by (simp add: parse_env_line_def)

lemma parse_env_line_Nil [simp]: "parse_env_line [] = None"
  by (simp add: parse_env_line_def)

lemma split_on_snoc:
  "split_on c (p @ [x]) =
     (if x = c then split_on c p @ [[]]
      else butlast (split_on c p) @ [last (split_on c p) @ [x]])"
proof (induction p)
  case Nil
  then show ?case by simp
next
  case (Cons y p)
  obtain q qs where q: "split_on c p = q # qs"
    by (cases "split_on c p") simp_all
  obtain q' qs' where q': "split_on c (p @ [x]) = q' # qs'"
    by (cases "split_on c (p @ [x])") simp_all
  show ?case
    using Cons q q' by (cases qs) (auto split: if_splits)
qed

lemma map_filter_append: "List.map_filter f (xs @ ys) = List.map_filter f xs @ List.map_filter f ys"
  by (simp add: List.map_filter_def)

lemma map_filter_Cons:
  "List.map_filter f (x # xs) = (case f x of None \<Rightarrow> List.map_filter f xs | Some y \<Rightarrow> y # List.map_filter f xs)"
  by (simp add: List.map_filter_def split: option.splits)

lemma map_filter_Nil [simp]: "List.map_filter f [] = []"
  by (simp add: List.map_filter_def)

lemma entries_lstrip:
  "List.map_filter parse_env_line (split_on CHR 0x0A (lstrip c)) =
   List.map_filter parse_env_line (split_on CHR 0x0A c)"
proof (induction c)
  case Nil
  then show ?case by (simp add: lstrip_def)
next
  case (Cons x c)
  show ?case
  proof (cases "isspace x")
    case False
    then show ?thesis by (simp add: lstrip_def)
  next
    case True
    then have l: "lstrip (x # c) = lstrip c" by (simp add: lstrip_def)
    obtain q qs where q: "split_on CHR 0x0A c = q # qs"
      by (cases "split_on CHR 0x0A c") simp_all
    show ?thesis
    proof (cases "x = CHR 0x0A")
      case True
      with Cons l show ?thesis by (simp add: map_filter_Cons)
    next
      case False
      have "parse_env_line (x # q) = parse_env_line q"
        by (rule parse_env_line_cong) (simp add: strip_Cons_space \<open>isspace x\<close>)
      with False Cons l q show ?thesis by (simp add: map_filter_Cons)
    qed
  qed
qed

lemma entries_rstrip:
  "List.map_filter parse_env_line (split_on CHR 0x0A (rstrip c)) =
   List.map_filter parse_env_line (split_on CHR 0x0A c)"
proof (induction c rule: rev_induct)
  case Nil
  then show ?case by (simp add: rstrip_def)
next
  case (snoc x c)
  show ?case
  proof (cases "isspace x")
    case False
    then show ?thesis by (simp add: rstrip_snoc)
  next
    case True
    then have r: "rstrip (c @ [x]) = rstrip c" by (simp add: rstrip_snoc)
    show ?thesis
    proof (cases "x = CHR 0x0A")
      case True
      with snoc r show ?thesis by (simp add: split_on_snoc map_filter_append map_filter_Cons)
    next
      case False
      let ?ps = "split_on CHR 0x0A c"
      have line: "parse_env_line (last ?ps @ [x]) = parse_env_line (last ?ps)"
        by (rule parse_env_line_cong) (simp add: strip_snoc_space \<open>isspace x\<close>)
      have "List.map_filter parse_env_line (butlast ?ps @ [last ?ps @ [x]]) =
            List.map_filter parse_env_line (butlast ?ps) @
              List.map_filter parse_env_line [last ?ps @ [x]]"
        by (rule map_filter_append)
      also have "\<dots> = List.map_filter parse_env_line (butlast ?ps) @
              List.map_filter parse_env_line [last ?ps]"
        by (simp only: map_filter_Cons line)
      also have "\<dots> = List.map_filter parse_env_line (butlast ?ps @ [last ?ps])"
        by (rule map_filter_append[symmetric])
      also have "\<dots> = List.map_filter parse_env_line ?ps"
        by simp
      finally have "List.map_filter parse_env_line (split_on CHR 0x0A (c @ [x])) =
                    List.map_filter parse_env_line ?ps"
        using False by (simp add: split_on_snoc)
      with snoc r show ?thesis by simp
    qed
  qed
qed

lemma entries_strip:
  "List.map_filter parse_env_line (split_on CHR 0x0A (strip c)) =
   List.map_filter parse_env_line (split_on CHR 0x0A c)"
  by (simp add: strip_def entries_lstrip entries_rstrip)

lemma env_entries_map_filter:
  "env_entries lines entries = entries @ List.map_filter parse_env_line lines"
  by (induction lines arbitrary: entries) (auto simp: map_filter_Cons split: option.splits)

lemma parse_env_file_eq:
  "parse_env_file env content nbox_path s =
     (let entries = List.map_filter parse_env_line (split_on CHR 0x0A content)
      in if entries = [] then (Inr [], [], s)
         else (Inr (map (env_draft nbox_path
                      (case checkbox env (map fst entries) of Some ks \<Rightarrow> set ks | None \<Rightarrow> {}))
                    entries),
               [AskSecure (map fst entries)], s))"
  by (simp add: parse_env_file_def Let_def env_entries_map_filter entries_strip io_return_def
      io_bind_def prompt_secure_def)

lemma unquote_spec_unquote:
  "v \<noteq> [CHR 0x22] \<Longrightarrow> v \<noteq> [CHR 0x27] \<Longrightarrow> unquote v = spec_unquote v"
proof (cases v)
  case Nil
  then show ?thesis
    by (simp add: unquote_def spec_unquote_def startswith_chr_def)
next
  case (Cons q rest)
  assume "v \<noteq> [CHR 0x22]" "v \<noteq> [CHR 0x27]"
  with Cons show ?thesis
    by (cases "rest = []")
       (auto simp: unquote_def spec_unquote_def startswith_chr_def endswith_chr_def slice_1_m1_def)
qed

text \<open>A value that is one quote character comes out empty.\<close>
lemma unquote_lone_quote: "unquote [CHR 0x22] = [] \<and> unquote [CHR 0x27] = []"
  by (simp add: unquote_def startswith_chr_def endswith_chr_def slice_1_m1_def)

lemma parse_env_line_spec:
  assumes "env_value_text line \<noteq> [CHR 0x22]" "env_value_text line \<noteq> [CHR 0x27]"
  shows "parse_env_line line = spec_parse_env_line (strip line)"
  using assms
  by (simp add: parse_env_line_def spec_parse_env_line_def env_value_text_def Let_def
      strip_idem env_key_of_def unquote_spec_unquote)

lemma map_filter_cong_set:
  "(\<And>x. x \<in> set xs \<Longrightarrow> f x = g x) \<Longrightarrow> List.map_filter f xs = List.map_filter g xs"
  by (induction xs) (simp_all add: map_filter_Cons split: option.splits)

lemma map_filter_map: "List.map_filter f (map g xs) = List.map_filter (\<lambda>x. f (g x)) xs"
  by (induction xs) (simp_all add: map_filter_Cons split: option.splits)

lemma keys_values_parse_env_file:
  "keys_values (result_of (parse_env_file env content nbox_path s)) =
     map (\<lambda>(k, v). (rstrip_chr CHR ''/'' nbox_path @ ''/'' @ k, JStr v))
       (List.map_filter parse_env_line (split_on CHR 0x0A content))"
  by (simp add: parse_env_file_eq Let_def result_of_def keys_values_def env_draft_def
      split_beta comp_def)

lemma example_entries:
  "List.map_filter parse_env_line (split_on CHR 0x0A (''FOO_BAR='' @ [CHR 0x22] @ ''baz'' @ [CHR 0x22]))
     = [(''foo-bar'', ''baz'')]"
  by code_simp

lemma example_path: "rstrip_chr CHR ''/'' ''app/env'' = ''app/env''"
  by code_simp

lemma parse_env_file_example:
  "keys_values (result_of (parse_env_file env (''FOO_BAR='' @ [CHR 0x22] @ ''baz'' @ [CHR 0x22]) ''app/env'' s))
     = [(''app/env/foo-bar'', JStr ''baz'')]"
  by (simp only: keys_values_parse_env_file example_entries example_path) simp


text \<open>For an input without such a value, the parser and the specification agree as a whole.\<close>
lemma parse_env_file_spec_drafts:
  assumes "\<forall>line \<in> set (split_on CHR 0x0A content).
             env_value_text line \<noteq> [CHR 0x22] \<and> env_value_text line \<noteq> [CHR 0x27]"
  shows "(\<exists>drafts. result_of (parse_env_file env content nbox_path s) = Inr drafts) \<and>
         keys_values (result_of (parse_env_file env content nbox_path s)) =
           spec_env_drafts (map strip (split_on CHR 0x0A content)) nbox_path \<and>
         keys_values (result_of (parse_env_file env
             (''FOO_BAR='' @ [CHR 0x22] @ ''baz'' @ [CHR 0x22]) ''app/env'' s)) =
           [(''app/env/foo-bar'', JStr ''baz'')]"
proof -
  have "List.map_filter parse_env_line (split_on CHR 0x0A content) =
        List.map_filter (\<lambda>line. spec_parse_env_line (strip line)) (split_on CHR 0x0A content)"
    using assms by (intro map_filter_cong_set parse_env_line_spec) auto
  then have "keys_values (result_of (parse_env_file env content nbox_path s)) =
           spec_env_drafts (map strip (split_on CHR 0x0A content)) nbox_path"
    by (simp add: keys_values_parse_env_file spec_env_drafts_def map_filter_map)
  moreover have "\<exists>drafts. result_of (parse_env_file env content nbox_path s) = Inr drafts"
    by (simp add: parse_env_file_eq Let_def result_of_def)
  ultimately show ?thesis using parse_env_file_example[of env s] by simp
qed

lemma parse_env_line_by_spec:
  "parse_env_line line =
     (case spec_parse_env_line (strip line) of
        None \<Rightarrow> None
      | Some (k, v) \<Rightarrow> Some (k, unquote (env_value_text line)))"
  by (simp add: parse_env_line_def spec_parse_env_line_def env_value_text_def Let_def
      strip_idem env_key_of_def)

lemma spec_parse_env_line_value:
  "spec_parse_env_line (strip line) = Some (k, v) \<Longrightarrow> v = spec_unquote (env_value_text line)"
  by (auto simp: spec_parse_env_line_def env_value_text_def split: if_splits)

lemma dotenv_agrees_env_draft:
  assumes "parse_env_line line = Some e"
  shows "dotenv_agrees base_path (env_draft base_path secure_keys e) line"
proof -
  from assms obtain k v where sp: "spec_parse_env_line (strip line) = Some (k, v)"
    and e: "e = (k, unquote (env_value_text line))"
    by (auto simp: parse_env_line_by_spec split: option.splits)
  from spec_parse_env_line_value[OF sp] have v: "v = spec_unquote (env_value_text line)" .
  show ?thesis
    using sp e v by (simp add: dotenv_agrees_def env_draft_def unquote_spec_unquote)
qed

lemma parse_env_line_None_iff:
  "parse_env_line line = None \<longleftrightarrow> spec_parse_env_line (strip line) = None"
  by (auto simp: parse_env_line_by_spec split: option.splits)

lemma drafts_agree:
  "list_all2 (dotenv_agrees base_path)
     (map (env_draft base_path secure_keys) (List.map_filter parse_env_line lines))
     (filter (\<lambda>line. spec_parse_env_line (strip line) \<noteq> None) lines)"
proof (induction lines)
  case Nil
  then show ?case by simp
next
  case (Cons line lines)
  show ?case
  proof (cases "parse_env_line line")
    case None
    with parse_env_line_None_iff[of line] Cons show ?thesis
      by (simp add: map_filter_Cons)
  next
    case (Some e)
    with parse_env_line_None_iff[of line] have "spec_parse_env_line (strip line) \<noteq> None"
      by simp
    with Some Cons dotenv_agrees_env_draft[OF Some] show ?thesis
      by (simp add: map_filter_Cons)
  qed
qed

lemma parse_env_file_drafts:
  "result_of (parse_env_file env content nbox_path s) =
     Inr (map (env_draft nbox_path
            (case checkbox env (map fst (List.map_filter parse_env_line (split_on CHR 0x0A content)))
             of Some ks \<Rightarrow> set ks | None \<Rightarrow> {}))
          (List.map_filter parse_env_line (split_on CHR 0x0A content)))"
  by (simp add: parse_env_file_eq Let_def result_of_def)

text \<open>
  C2, as the code has it. For every input the dotenv parser returns drafts, one for each
  line that the specification does not skip once the line is trimmed, in the order of the
  lines; a comment may so be indented. The key of each draft is the key of the
  specification for the trimmed line under the base path, and its value is the value of
  the specification, unless the value of the line is a single quote character (what
  becomes of such a value is left open here). \<open>FOO_BAR="baz"\<close> under \<open>app/env\<close> gives the
  key \<open>app/env/foo-bar\<close> and the value \<open>baz\<close>.
\<close>
theorem dotenv_parser:
  "(\<exists>drafts. result_of (parse_env_file env content nbox_path s) = Inr drafts \<and>
       list_all2 (dotenv_agrees nbox_path) drafts (spec_kept content)) \<and>
   keys_values (result_of (parse_env_file env
       (''FOO_BAR='' @ [CHR 0x22] @ ''baz'' @ [CHR 0x22]) ''app/env'' s)) =
     [(''app/env/foo-bar'', JStr ''baz'')]"
  using parse_env_file_drafts[of env content nbox_path s]
    drafts_agree[of nbox_path _ "split_on CHR 0x0A content"]
    parse_env_file_example[of env s]
  by (auto simp: spec_kept_def)


lemma set_strip: "set (strip l) \<subseteq> set l"
proof -
  have "set (rstrip l) \<subseteq> set l"
    unfolding rstrip_def using set_dropWhileD[of _ isspace "rev l"] by auto
  moreover have "set (lstrip (rstrip l)) \<subseteq> set (rstrip l)"
    unfolding lstrip_def using set_dropWhileD[of _ isspace "rstrip l"] by auto
  ultimately show ?thesis by (auto simp: strip_def)
qed

lemma parse_env_line_skipped:
  assumes "strip line = [] \<or> startswith_chr (strip line) CHR ''#'' \<or> CHR ''='' \<notin> set line"
  shows "parse_env_line line = None"
proof -
  from assms set_strip[of line]
  have "strip line = [] \<or> startswith_chr (strip line) CHR ''#'' \<or> CHR ''='' \<notin> set (strip line)"
    by auto
  then show ?thesis by (auto simp: parse_env_line_def Let_def)
qed

lemma map_filter_None: "(\<And>x. x \<in> set xs \<Longrightarrow> f x = None) \<Longrightarrow> List.map_filter f xs = []"
  by (induction xs) (simp_all add: map_filter_Cons)

text \<open>
  C10. When every line of a dotenv input is blank, is a comment (its first character that
  is not whitespace is \<open>#\<close>) or has no \<open>=\<close>, the parser returns the empty list of drafts
  and emits nothing: the prompt for the secure entries is not shown.
\<close>
theorem no_entries_no_prompt:
  assumes "\<forall>line \<in> set (split_on CHR 0x0A content).
             strip line = [] \<or> startswith_chr (strip line) CHR ''#'' \<or> CHR ''='' \<notin> set line"
  shows "parse_env_file env content nbox_path s = (Inr [], [], s) \<and>
         (\<forall>choices. AskSecure choices \<notin> set (events_of (parse_env_file env content nbox_path s)))"
proof -
  have "List.map_filter parse_env_line (split_on CHR 0x0A content) = []"
    using assms by (intro map_filter_None parse_env_line_skipped) auto
  then show ?thesis
    by (simp add: parse_env_file_eq events_of_def)
qed

theorem no_entries_no_prompt_witness:
  "parse_env_file (example_env (\<lambda>rq. ok JNull) [] None None)
     (''# comment'' @ [CHR 0x0A, CHR 0x0A] @ ''  # X=1'' @ [CHR 0x0A] @ ''no separator '') ''app/env'' ()
     = (Inr [], [], ())"
proof -
  let ?content = "''# comment'' @ [CHR 0x0A, CHR 0x0A] @ ''  # X=1'' @ [CHR 0x0A] @ ''no separator ''"
  have h: "\<forall>line \<in> set (split_on CHR 0x0A ?content).
      strip line = [] \<or> startswith_chr (strip line) CHR ''#'' \<or> CHR ''='' \<notin> set line"
    by code_simp
  from no_entries_no_prompt[OF h, of "example_env (\<lambda>rq. ok JNull) [] None None" "''app/env''" "()"] h
  show ?thesis by blast
qed

theorem dotenv_parser_witness:
  "keys_values (result_of (parse_env_file (example_env (\<lambda>rq. ok JNull) [] None None)
        (''# say='' @ [CHR 0x22] @ [CHR 0x0A, CHR 0x0A] @ ''FOO_BAR='' @ [CHR 0x22] @ ''baz'' @ [CHR 0x22]
          @ [CHR 0x0A] @ '' Url = http://h/?a=b '') ''app/env/'' ())) =
     [(''app/env/foo-bar'', JStr ''baz''), (''app/env/url'', JStr ''http://h/?a=b'')]"
proof -
  let ?env = "example_env (\<lambda>rq. ok JNull) [] None None :: unit env"
  let ?content = "''# say='' @ [CHR 0x22] @ [CHR 0x0A, CHR 0x0A] @ ''FOO_BAR='' @ [CHR 0x22] @ ''baz'' @ [CHR 0x22]
          @ [CHR 0x0A] @ '' Url = http://h/?a=b ''"
  let ?l1 = "''FOO_BAR='' @ [CHR 0x22] @ ''baz'' @ [CHR 0x22]"
  let ?l2 = "'' Url = http://h/?a=b ''"
  from dotenv_parser[of ?env ?content "''app/env/''" "()"] obtain drafts where
    r: "result_of (parse_env_file ?env ?content ''app/env/'' ()) = Inr drafts" and
    a: "list_all2 (dotenv_agrees ''app/env/'') drafts (spec_kept ?content)"
    by blast
  have kept: "spec_kept ?content = [?l1, ?l2]"
    by code_simp
  from a kept obtain d1 d2 where d: "drafts = [d1, d2]"
    and a1: "dotenv_agrees ''app/env/'' d1 ?l1" and a2: "dotenv_agrees ''app/env/'' d2 ?l2"
    by (auto simp: list_all2_Cons2)
  have s1: "spec_parse_env_line (strip ?l1) = Some (''foo-bar'', ''baz'')"
    and s2: "spec_parse_env_line (strip ?l2) = Some (''url'', ''http://h/?a=b'')"
    by code_simp+
  have v1: "env_value_text ?l1 \<noteq> [CHR 0x22] \<and> env_value_text ?l1 \<noteq> [CHR 0x27]"
    and v2: "env_value_text ?l2 \<noteq> [CHR 0x22] \<and> env_value_text ?l2 \<noteq> [CHR 0x27]"
    by code_simp+
  have base: "rstrip_chr CHR ''/'' ''app/env/'' @ ''/'' = ''app/env/''"
    by code_simp
  from a1 s1 v1 base have k1: "draft_key d1 = ''app/env/foo-bar''" "draft_value d1 = JStr ''baz''"
    by (simp_all add: dotenv_agrees_def)
  from a2 s2 v2 base have k2: "draft_key d2 = ''app/env/url''" "draft_value d2 = JStr ''http://h/?a=b''"
    by (simp_all add: dotenv_agrees_def)
  from r d k1 k2 show ?thesis
    by (simp add: keys_values_def)
qed

text \<open>
  C2 as it is stated fails on two inputs. The line \<open>  #A=1\<close> does not start with \<open>#\<close> and
  has a \<open>=\<close>, and the parser skips it. The value of \<open>A="\<close> has no surrounding quotes,
  and the parser returns it empty.
\<close>
theorem dotenv_parser_counterexample:
  "keys_values (result_of (parse_env_file (example_env (\<lambda>rq. ok JNull) [] None None)
      ''  #A=1'' ''p'' ())) = [] \<and>
   spec_env_drafts (split_on CHR 0x0A ''  #A=1'') ''p'' = [(''p/#a'', JStr ''1'')] \<and>
   keys_values (result_of (parse_env_file (example_env (\<lambda>rq. ok JNull) [] None None)
      (''A='' @ [CHR 0x22]) ''p'' ())) = [(''p/a'', JStr [])] \<and>
   spec_env_drafts (split_on CHR 0x0A (''A='' @ [CHR 0x22])) ''p'' = [(''p/a'', JStr [CHR 0x22])]"
  by code_simp


section \<open>Events that do no harm\<close>

lemma emits_only_return [intro!]: "emits_only P (io_return x)"
  by (simp add: emits_only_def events_of_def io_return_def)

lemma emits_only_raise [intro!]: "emits_only P (io_raise e)"
  by (simp add: emits_only_def events_of_def io_raise_def)

lemma emits_only_emit: "P ev \<Longrightarrow> emits_only P (emit ev)"
  by (simp add: emits_only_def events_of_def emit_def)

lemma emits_only_bind:
  "emits_only P m \<Longrightarrow> (\<And>x. emits_only P (f x)) \<Longrightarrow> emits_only P (io_bind m f)"
  unfolding emits_only_def events_of_def io_bind_def
  by (auto split: prod.splits sum.splits) (metis fst_conv snd_conv)+

lemma emits_only_try:
  "emits_only P m \<Longrightarrow> (\<And>e. emits_only P (h e)) \<Longrightarrow> emits_only P (io_try m h)"
  unfolding emits_only_def events_of_def io_try_def
  by (auto split: prod.splits sum.splits) (metis fst_conv snd_conv)+

lemma emits_only_http: "(\<And>rs. P (Http rq rs)) \<Longrightarrow> emits_only P (http env rq)"
  by (simp add: emits_only_def events_of_def http_def split: prod.splits)

lemma emits_only_json_or_raise [intro!]: "emits_only P (json_or_raise rs)"
  by (auto simp: json_or_raise_def split: option.splits)

lemma emits_only_dict_get [intro!]: "emits_only P (dict_get d k dflt)"
  by (auto simp: dict_get_def split: json.splits)

lemma emits_only_new_client [intro!]: "emits_only P (new_client env)"
  by (auto simp: new_client_def split: option.splits)

lemma harmless_simps [simp]:
  "harmless (Say m)" "harmless (Print tbl)" "harmless (AskSecure cs)"
  "harmless (Call ValidateToken)" "harmless (Call (GetEntryByKey k))"
  "harmless (Http (GetPrefix k) rs)" "harmless (Http (GetKey k) rs)"
  by (simp_all add: harmless_def)

lemma harmless_get_client: "emits_only harmless (get_client env)"
  unfolding get_client_def client_validate_token_def
  by (intro emits_only_try emits_only_bind emits_only_emit emits_only_http
      emits_only_new_client emits_only_return emits_only_raise emits_only_json_or_raise) simp_all

lemma harmless_client_get_entry_by_key: "emits_only harmless (client_get_entry_by_key env k)"
  unfolding client_get_entry_by_key_def
  by (intro emits_only_bind emits_only_emit emits_only_http emits_only_json_or_raise) simp_all

lemma harmless_nbox_entries: "emits_only harmless (nbox_entries entries data)"
proof (induction entries arbitrary: data)
  case Nil
  then show ?case by auto
next
  case (Cons e entries)
  have say: "emits_only harmless (io_bind (emit (Say m)) (\<lambda>_. io_raise x))" for m x
    by (intro emits_only_bind emits_only_emit emits_only_raise) simp
  show ?case
    using Cons say
    by (auto simp: unsupported_json_def split: json.splits option.splits)
qed

lemma harmless_parse_source:
  "emits_only harmless (parse_source env content nbox_path input_type)"
proof -
  have say: "emits_only harmless (io_bind (emit (Say m)) (\<lambda>_. io_raise x))" for m x
    by (intro emits_only_bind emits_only_emit emits_only_raise) simp
  have env_file: "emits_only harmless (parse_env_file env content p)" for p
    by (simp add: emits_only_def parse_env_file_eq events_of_def Let_def)
  have nbox: "emits_only harmless (parse_nbox_json env content)"
    using say harmless_nbox_entries
    by (auto simp: parse_nbox_json_def unsupported_json_def split: option.splits json.splits)
  show ?thesis
    using say env_file nbox by (auto simp: parse_source_def split: option.splits)
qed

lemma harmless_changeset_table: "emits_only harmless (changeset_table env no_changeset data)"
  unfolding emits_only_def
proof (intro allI ballI)
  fix s e
  assume e: "e \<in> set (events_of (changeset_table env no_changeset data s))"
  obtain r t s' where run: "changeset_table env no_changeset data s = (r, t, s')"
    and ev: "events_of (changeset_table env no_changeset data s) = t"
    by (rule run_cases[of "changeset_table env no_changeset data s"])
  from changeset_table_quiet[OF run] e ev show "harmless e"
    by (auto simp: harmless_def)
qed

section \<open>Saying no at the gate\<close>

lemma cancels_harmless: "emits_only harmless m \<Longrightarrow> cancels m"
  by (auto simp: cancels_def emits_only_def harmless_def)

lemma cancels_no_ask: "emits_only (\<lambda>e. e \<noteq> AskConfirm) m \<Longrightarrow> cancels m"
  by (auto simp: cancels_def emits_only_def)

lemma cancels_bind:
  assumes "emits_only harmless m" and "\<And>x. cancels (f x)"
  shows "cancels (io_bind m f)"
  unfolding cancels_def
proof (intro allI impI)
  fix s
  assume ask: "AskConfirm \<in> set (events_of (io_bind m f s))"
  obtain r t s' where run: "io_bind m f s = (r, t, s')"
    and ev: "events_of (io_bind m f s) = t" and res: "result_of (io_bind m f s) = r"
    by (rule run_cases[of "io_bind m f s"])
  from assms(1) have m: "\<forall>e \<in> set (events_of (m s)). harmless e"
    by (simp add: emits_only_def)
  from run have "(\<forall>e \<in> set t. \<not> is_write e) \<and> r = Inl (Exit 0)"
  proof (cases rule: io_bindE)
    case (raised e)
    with m ask ev show ?thesis by (auto simp: events_of_def harmless_def)
  next
    case (returned x t1 s1 t2)
    from m returned(1) have t1: "\<forall>e \<in> set t1. harmless e" by (simp add: events_of_def)
    with ask ev returned(3) have "AskConfirm \<in> set t2" by (auto simp: harmless_def)
    with assms(2)[of x] returned(2) have "(\<forall>e \<in> set t2. \<not> is_write e) \<and> r = Inl (Exit 0)"
      by (auto simp: cancels_def events_of_def result_of_def dest!: spec[of _ s1])
    with t1 returned(3) show ?thesis by (auto simp: harmless_def)
  qed
  then show "(\<forall>e \<in> set (events_of (io_bind m f s)). \<not> is_write e) \<and>
             result_of (io_bind m f s) = Inl (Exit 0)"
    unfolding ev res .
qed

lemma cancels_gate:
  assumes "confirm env = Some False"
  shows "cancels (io_bind (confirm_or_exit env) f)"
  using assms
  by (simp add: cancels_def io_bind_def confirm_or_exit_eq events_of_def result_of_def)

lemma cancels_say_raise: "cancels (io_bind (emit (Say m)) (\<lambda>_. io_raise x))"
  by (intro cancels_harmless emits_only_bind emits_only_emit emits_only_raise) simp

lemma emits_only_if:
  "emits_only P a \<Longrightarrow> emits_only P b \<Longrightarrow> emits_only P (if c then a else b)"
  by simp

lemma cancels_if: "cancels a \<Longrightarrow> cancels b \<Longrightarrow> cancels (if c then a else b)"
  by simp

lemmas harmless_intros =
  emits_only_bind emits_only_try emits_only_emit emits_only_http emits_only_if
  emits_only_return emits_only_raise emits_only_json_or_raise emits_only_dict_get
  emits_only_new_client harmless_get_client harmless_client_get_entry_by_key
  harmless_parse_source harmless_changeset_table

lemma cancels_import_data:
  assumes "confirm env = Some False"
  shows "cancels (import_data env no_changeset data)"
  unfolding import_data_def
  by (intro cancels_bind cancels_gate[OF assms] harmless_intros) simp

lemma cancels_create_entries:
  assumes "confirm env = Some False"
  shows "cancels (create_entries env source_file nbox_path input_type no_changeset)"
proof -
  have "cancels (case read_file env source_file of
        None \<Rightarrow> io_bind (emit (Say (FileMissing source_file))) (\<lambda>_. io_raise (Exit 1))
      | Some content \<Rightarrow>
          io_bind (parse_source env content nbox_path input_type) (\<lambda>data.
          import_data env no_changeset data))"
  proof (cases "read_file env source_file")
    case None
    then show ?thesis by (simp add: cancels_say_raise)
  next
    case (Some content)
    then show ?thesis
      by (simp add: cancels_bind harmless_parse_source cancels_import_data[OF assms])
  qed
  then show ?thesis
    unfolding create_entries_def by (intro cancels_bind harmless_get_client)
qed

lemma cancels_create_entry:
  assumes "confirm env = Some False"
  shows "cancels (create_entry env key val secure)"
  unfolding create_entry_def
  by (intro cancels_bind cancels_gate[OF assms] harmless_intros) simp_all

lemma no_ask_delete_and_report:
  "emits_only (\<lambda>e. e \<noteq> AskConfirm) (delete_and_report env key)"
  unfolding delete_and_report_def client_delete_entry_by_key_def
  by (intro emits_only_bind emits_only_try emits_only_emit emits_only_http
      emits_only_return emits_only_raise emits_only_json_or_raise) simp_all

lemma cancels_remove_entry:
  assumes "confirm env = Some False"
  shows "cancels (remove_entry env key delete_confirmation)"
  unfolding remove_entry_def
  by (intro cancels_bind cancels_if cancels_gate[OF assms] cancels_say_raise
      cancels_no_ask[OF no_ask_delete_and_report] harmless_intros) simp_all

text \<open>
  C6. When the user answers no at the confirmation gate of \<open>create_entries\<close>, of
  \<open>create_entry\<close> or of \<open>remove_entry\<close>, the run has made no create, batch-create or
  delete call and sent no POST or DELETE request, and it ends with \<open>Exit 0\<close>: the exit
  code is 0, not 1.
\<close>
theorem cancel_writes_nothing:
  assumes "confirm env = Some False"
  shows
    "(AskConfirm \<in> set (events_of (create_entries env source_file nbox_path input_type no_changeset s)) \<longrightarrow>
        (\<forall>e \<in> set (events_of (create_entries env source_file nbox_path input_type no_changeset s)).
           \<not> is_write e) \<and>
        result_of (create_entries env source_file nbox_path input_type no_changeset s) = Inl (Exit 0) \<and>
        exit_code (result_of (create_entries env source_file nbox_path input_type no_changeset s)) = 0) \<and>
     (AskConfirm \<in> set (events_of (create_entry env key val secure s)) \<longrightarrow>
        (\<forall>e \<in> set (events_of (create_entry env key val secure s)). \<not> is_write e) \<and>
        result_of (create_entry env key val secure s) = Inl (Exit 0) \<and>
        exit_code (result_of (create_entry env key val secure s)) = 0) \<and>
     (AskConfirm \<in> set (events_of (remove_entry env key delete_confirmation s)) \<longrightarrow>
        (\<forall>e \<in> set (events_of (remove_entry env key delete_confirmation s)). \<not> is_write e) \<and>
        result_of (remove_entry env key delete_confirmation s) = Inl (Exit 0) \<and>
        exit_code (result_of (remove_entry env key delete_confirmation s)) = 0)"
  using cancels_create_entries[OF assms, of source_file nbox_path input_type no_changeset]
    cancels_create_entry[OF assms, of key val secure]
    cancels_remove_entry[OF assms, of key delete_confirmation]
  unfolding cancels_def by (auto dest!: spec[of _ s])

theorem cancel_writes_nothing_witness:
  "AskConfirm \<in> set (events_of (create_entries
      (example_env (\<lambda>rq. ok JNull) [] (Some (JList [JObj [(''key'', JStr ''a''), (''value'', JStr ''1'')]]))
         (Some False)) ''entries.json'' None ''nbox'' False ())) \<and>
   filter is_write (events_of (create_entries
      (example_env (\<lambda>rq. ok JNull) [] (Some (JList [JObj [(''key'', JStr ''a''), (''value'', JStr ''1'')]]))
         (Some False)) ''entries.json'' None ''nbox'' False ())) = [] \<and>
   result_of (create_entries
      (example_env (\<lambda>rq. ok JNull) [] (Some (JList [JObj [(''key'', JStr ''a''), (''value'', JStr ''1'')]]))
         (Some False)) ''entries.json'' None ''nbox'' False ()) = Inl (Exit 0) \<and>
   AskConfirm \<in> set (events_of (create_entry
      (example_env (\<lambda>rq. ok JNull) [] None (Some False)) ''a'' ''1'' False ())) \<and>
   filter is_write (events_of (create_entry
      (example_env (\<lambda>rq. ok JNull) [] None (Some False)) ''a'' ''1'' False ())) = [] \<and>
   result_of (create_entry
      (example_env (\<lambda>rq. ok JNull) [] None (Some False)) ''a'' ''1'' False ()) = Inl (Exit 0) \<and>
   AskConfirm \<in> set (events_of (remove_entry
      (example_env (\<lambda>rq. ok (JObj [(''key'', JStr ''a''), (''value'', JStr ''1'')])) [] None (Some False))
         ''a'' True ())) \<and>
   filter is_write (events_of (remove_entry
      (example_env (\<lambda>rq. ok (JObj [(''key'', JStr ''a''), (''value'', JStr ''1'')])) [] None (Some False))
         ''a'' True ())) = [] \<and>
   result_of (remove_entry
      (example_env (\<lambda>rq. ok (JObj [(''key'', JStr ''a''), (''value'', JStr ''1'')])) [] None (Some False))
         ''a'' True ()) = Inl (Exit 0)"
proof -
  let ?env1 = "example_env (\<lambda>rq. ok JNull) []
      (Some (JList [JObj [(''key'', JStr ''a''), (''value'', JStr ''1'')]])) (Some False)"
  let ?env2 = "example_env (\<lambda>rq. ok JNull) [] None (Some False)"
  let ?env3 = "example_env (\<lambda>rq. ok (JObj [(''key'', JStr ''a''), (''value'', JStr ''1'')])) []
      None (Some False)"
  have a1: "AskConfirm \<in> set (events_of (create_entries ?env1 ''entries.json'' None ''nbox'' False ()))"
    by code_simp
  have a2: "AskConfirm \<in> set (events_of (create_entry ?env2 ''a'' ''1'' False ()))"
    by code_simp
  have a3: "AskConfirm \<in> set (events_of (remove_entry ?env3 ''a'' True ()))"
    by code_simp
  have n1: "confirm ?env1 = Some False" and n2: "confirm ?env2 = Some False"
    and n3: "confirm ?env3 = Some False"
    by (simp_all add: example_env_def)
  from cancel_writes_nothing[OF n1, where source_file = "''entries.json''" and nbox_path = None
      and input_type = "''nbox''" and no_changeset = False and s = "()"] a1
  have c1: "filter is_write (events_of (create_entries ?env1 ''entries.json'' None ''nbox'' False ())) = []
      \<and> result_of (create_entries ?env1 ''entries.json'' None ''nbox'' False ()) = Inl (Exit 0)"
    by (simp add: filter_empty_conv)
  from cancel_writes_nothing[OF n2, where key = "''a''" and val = "''1''" and secure = False
      and s = "()"] a2
  have c2: "filter is_write (events_of (create_entry ?env2 ''a'' ''1'' False ())) = []
      \<and> result_of (create_entry ?env2 ''a'' ''1'' False ()) = Inl (Exit 0)"
    by (simp add: filter_empty_conv)
  from cancel_writes_nothing[OF n3, where key = "''a''" and delete_confirmation = True and s = "()"] a3
  have c3: "filter is_write (events_of (remove_entry ?env3 ''a'' True ())) = []
      \<and> result_of (remove_entry ?env3 ''a'' True ()) = Inl (Exit 0)"
    by (simp add: filter_empty_conv)
  from a1 a2 a3 c1 c2 c3 show ?thesis by blast
qed

section \<open>A key that is not a string\<close>

lemma io_bind_say_raise:
  "io_bind (emit (Say m)) (\<lambda>_. io_raise x) s = (Inl x, [Say m], s)"
  by (simp add: io_bind_def emit_def io_raise_def)

text \<open>
  A structured list with an element whose key is not a string never gives drafts: the
  parser ends with \<open>Exit 1\<close> at an earlier element that is malformed, or else with the
  \<open>AttributeError\<close> of \<open>key.lower()\<close>, which nothing catches.
\<close>
lemma nbox_entries_non_string_key:
  assumes "JObj kvs \<in> set entries" and "map_of kvs ''key'' = Some k"
    and "\<forall>ks. k \<noteq> JStr ks"
  shows "result_of (nbox_entries entries data s) = Inl AttributeError \<or>
         result_of (nbox_entries entries data s) = Inl (Exit 1)"
  using assms
proof (induction entries arbitrary: data)
  case Nil
  then show ?case by simp
next
  case (Cons e entries)
  show ?case
  proof (cases "e = JObj kvs")
    case True
    with Cons.prems(2,3) show ?thesis
      by (cases k)
         (auto simp: result_of_def io_raise_def io_bind_say_raise split: option.splits)
  next
    case False
    with Cons.prems have "JObj kvs \<in> set entries" by simp
    from Cons.IH[OF this Cons.prems(2,3)] show ?thesis
      by (auto simp: result_of_def io_raise_def io_bind_say_raise unsupported_json_def
          split: json.splits option.splits)
  qed
qed

text \<open>
  C7 fails on the code. For the list \<open>[{"key": 5, "value": "x"}]\<close> the parser raises
  \<open>AttributeError\<close>; the command says nothing, submits nothing, and ends with that
  uncaught exception. A root that is not a list, by contrast, is reported
  (\<open>UnsupportedJSON\<close>) and ends with \<open>Exit 1\<close>.
\<close>
theorem non_string_key_crashes:
  "result_of (parse_nbox_json
      (example_env (\<lambda>rq. ok JNull) [] (Some (JList [JObj [(''key'', JNum 5), (''value'', JStr ''x'')]]))
         (Some True)) [] ()) = Inl AttributeError \<and>
   events_of (create_entries
      (example_env (\<lambda>rq. ok JNull) [] (Some (JList [JObj [(''key'', JNum 5), (''value'', JStr ''x'')]]))
         (Some True)) ''entries.json'' None ''nbox'' False ()) =
     [Call ValidateToken, Http (GetPrefix ''login'') (ok JNull)] \<and>
   result_of (create_entries
      (example_env (\<lambda>rq. ok JNull) [] (Some (JList [JObj [(''key'', JNum 5), (''value'', JStr ''x'')]]))
         (Some True)) ''entries.json'' None ''nbox'' False ()) = Inl AttributeError \<and>
   events_of (create_entries
      (example_env (\<lambda>rq. ok JNull) [] (Some (JObj [(''key'', JStr ''a''), (''value'', JStr ''x'')]))
         (Some True)) ''entries.json'' None ''nbox'' False ()) =
     [Call ValidateToken, Http (GetPrefix ''login'') (ok JNull), Say UnsupportedJSON] \<and>
   result_of (create_entries
      (example_env (\<lambda>rq. ok JNull) [] (Some (JObj [(''key'', JStr ''a''), (''value'', JStr ''x'')]))
         (Some True)) ''entries.json'' None ''nbox'' False ()) = Inl (Exit 1)"
  by code_simp

end
